theory Spec2Isabelle
  imports Main "HOL-Library.Word" "HOL-Library.Code_Target_Numeral"
begin

section \<open>Machine arithmetic of the driver\<close>

text \<open>
  The driver computes with \<open>size_t\<close> and \<open>uint64_t\<close>: unsigned 64-bit values. They are
  natural numbers here, and every sum, difference and product of the source is written
  with its wrap-around.
\<close>

definition add64 :: "nat \<Rightarrow> nat \<Rightarrow> nat" where
  "add64 a b = (a + b) mod 2 ^ 64"

definition sub64 :: "nat \<Rightarrow> nat \<Rightarrow> nat" where
  "sub64 a b = (a mod 2 ^ 64 + 2 ^ 64 - b mod 2 ^ 64) mod 2 ^ 64"

definition mul64 :: "nat \<Rightarrow> nat \<Rightarrow> nat" where
  "mul64 a b = (a * b) mod 2 ^ 64"

text \<open>
  \<open>#define ROUND_UP(X, Y) ((((uint64_t) (X) / (Y)) + ((uint64_t) (X) % (Y) != 0)) * (Y))\<close>
  of \<open>utils.h\<close>.
\<close>

definition ROUND_UP :: "nat \<Rightarrow> nat \<Rightarrow> nat" where
  "ROUND_UP X Y =
     mul64 (add64 ((X mod 2 ^ 64) div Y) (if (X mod 2 ^ 64) mod Y \<noteq> 0 then 1 else 0)) Y"

section \<open>Files and buffers\<close>

text \<open>
  A file is the sequence of its bytes. A \<open>.bin\<close> file starts with two 32-bit values,
  the number of points and the dimension, stored least significant byte first (the
  driver reads them with \<open>reader.read((char *)&npts_i32, sizeof(int))\<close> on a
  little-endian machine).
\<close>

type_synonym byte = "8 word"

definition u32_at :: "byte list \<Rightarrow> nat \<Rightarrow> nat" where
  "u32_at f p = unat (f ! p) + 256 * unat (f ! (p + 1)) + 65536 * unat (f ! (p + 2))
                + 16777216 * unat (f ! (p + 3))"

definition hdr_npts :: "byte list \<Rightarrow> nat" where
  "hdr_npts f = u32_at f 0"

definition hdr_dim :: "byte list \<Rightarrow> nat" where
  "hdr_dim f = u32_at f 4"

text \<open>
  What a \<open>read\<close> of \<open>n\<close> bytes at position \<open>pos\<close> delivers: the bytes the file has
  there, fewer than \<open>n\<close> when the file ends first.
\<close>

definition read_at :: "byte list \<Rightarrow> nat \<Rightarrow> nat \<Rightarrow> byte list" where
  "read_at f pos n = take n (drop pos f)"

text \<open>
  The destination buffer \<open>T *data\<close> is the memory behind the pointer, addressed in
  bytes from \<open>data\<close>; \<open>sz\<close> is \<open>sizeof(T)\<close>. Storing a run of bytes changes exactly
  the addresses of the run.
\<close>

type_synonym buffer = "nat \<Rightarrow> byte"

definition store_bytes :: "buffer \<Rightarrow> nat \<Rightarrow> byte list \<Rightarrow> buffer" where
  "store_bytes m a bs = (\<lambda>k. if a \<le> k \<and> k < a + length bs then bs ! (k - a) else m k)"

text \<open>The exceptions of the driver and of the loaders.\<close>

datatype error =
    File_size_mismatch
  | Not_enough_points
  | Io_failure
  | Bad_alloc
  | Num_points_lt_max_points
  | Max_points_lt_window_plus_interval
  | Consolidate_interval_too_small

text \<open>
  The \<open>k\<close>-th value of type \<open>T\<close> behind the pointer, and the \<open>k\<close>-th value behind the
  header of a file, as their \<open>sz\<close> bytes.
\<close>

definition coordinate :: "nat \<Rightarrow> buffer \<Rightarrow> nat \<Rightarrow> byte list" where
  "coordinate sz data k = map data [k * sz ..< k * sz + sz]"

definition file_coordinate :: "nat \<Rightarrow> byte list \<Rightarrow> nat \<Rightarrow> byte list" where
  "file_coordinate sz f k = read_at f (8 + k * sz) sz"

section \<open>load_aligned_bin_part\<close>

text \<open>
  The loop of \<open>load_aligned_bin_part\<close>: for point \<open>i\<close>, read \<open>dim * sizeof(T)\<close> bytes
  to \<open>data + i * rounded_dim\<close> and zero the \<open>rounded_dim - dim\<close> coordinates behind
  them. The stream throws when a read ends at the end of the file before it has its
  bytes (\<open>reader.exceptions(failbit | badbit)\<close>); the bytes it did get are stored by
  then. \<open>pos\<close> is the position of the stream. The result is the exception, if any, and
  the buffer.
\<close>

function read_points ::
  "byte list \<Rightarrow> nat \<Rightarrow> nat \<Rightarrow> nat \<Rightarrow> nat \<Rightarrow> nat \<Rightarrow> nat \<Rightarrow> buffer \<Rightarrow> error option \<times> buffer"
where
  "read_points f sz dim rounded_dim points_to_read pos i data =
     (if i < points_to_read then
        (let got = read_at f pos (mul64 dim sz);
             data1 = store_bytes data (i * rounded_dim * sz) got
         in if length got < mul64 dim sz then (Some Io_failure, data1)
            else
              read_points f sz dim rounded_dim points_to_read (pos + mul64 dim sz) (Suc i)
                (store_bytes data1 ((i * rounded_dim + dim) * sz)
                   (replicate (mul64 (sub64 rounded_dim dim) sz) 0)))
      else (None, data))"
  by pat_completeness auto
termination
  by (relation "measure (\<lambda>(f, sz, dim, rounded_dim, points_to_read, pos, i, data).
        points_to_read - i)") auto

declare read_points.simps [simp del]

text \<open>
  \<open>load_aligned_bin_part(bin_file, data, offset_points, points_to_read)\<close>. The file is
  opened at its end to take its size, then the two header words are read (a file with
  fewer than eight bytes fails there), the size and the range are checked, and the
  stream is moved to the first requested point. \<open>seekg\<close> takes a signed offset: a
  position of \<open>2^63\<close> or more is negative and the seek fails.
\<close>

definition load_aligned_bin_part ::
  "byte list \<Rightarrow> nat \<Rightarrow> buffer \<Rightarrow> nat \<Rightarrow> nat \<Rightarrow> error option \<times> buffer"
where
  "load_aligned_bin_part f sz data offset_points points_to_read =
     (if length f < 8 then (Some Io_failure, data)
      else
        (let npts = hdr_npts f;
             dim = hdr_dim f;
             expected_actual_file_size = add64 (mul64 (mul64 npts dim) sz) 8
         in if length f \<noteq> expected_actual_file_size then (Some File_size_mismatch, data)
            else if add64 offset_points points_to_read > npts then (Some Not_enough_points, data)
            else
              (let pos = add64 8 (mul64 (mul64 offset_points dim) sz)
               in if pos \<ge> 2 ^ 63 then (Some Io_failure, data)
                  else read_points f sz dim (ROUND_UP dim 8) points_to_read pos 0 data)))"


section \<open>load_truthset\<close>

text \<open>
  \<open>load_truthset(bin_file, ids, dists, npts, dim)\<close> of \<open>utils.h\<close>. It reads through a
  \<open>cached_ifstream\<close>, whose class (\<open>cached_io.h\<close>) is not among the sources: its
  \<open>read\<close> is taken to deliver the next bytes of the file and to throw when the file
  has fewer than asked for. \<open>new uint32_t[n]\<close> throws when \<open>n * 4\<close> bytes are more than
  a \<open>size_t\<close> can count; running out of memory is left out. The result holds
  \<open>npts\<close>, \<open>dim\<close>, the bytes read into \<open>ids\<close> and, for a file with distances, the
  bytes read into \<open>dists\<close>.
\<close>

definition load_truthset :: "byte list \<Rightarrow> error + (nat \<times> nat \<times> byte list \<times> byte list option)"
where
  "load_truthset f =
     (if length f < 8 then Inl Io_failure
      else
        (let actual_file_size = length f;
             npts = hdr_npts f;
             dim = hdr_dim f;
             expected_file_size_with_dists = add64 (mul64 (mul64 (mul64 2 npts) dim) 4) 8;
             truthset_type0 = (if actual_file_size = expected_file_size_with_dists then 1 else - 1 :: int);
             expected_file_size_just_ids = add64 (mul64 (mul64 npts dim) 4) 8;
             truthset_type = (if actual_file_size = expected_file_size_just_ids then 2 else truthset_type0)
         in if truthset_type = - 1 then Inl File_size_mismatch
            else if mul64 npts dim * 4 \<ge> 2 ^ 64 then Inl Bad_alloc
            else
              (let n = mul64 (mul64 npts dim) 4;
                   ids = read_at f 8 n
               in if length ids < n then Inl Io_failure
                  else if truthset_type = 1 then
                    (let dists = read_at f (8 + n) n
                     in if length dists < n then Inl Io_failure
                        else Inr (npts, dim, ids, Some dists))
                  else Inr (npts, dim, ids, None))))"

section \<open>The index, as the driver sees it\<close>

text \<open>
  Modelled from the spec: \<open>diskann::Index\<close> (\<open>index.h\<close>) is not among the sources. Of
  the index the driver's claims need which tags are live and which are lazily deleted:
  \<open>insert_point\<close> reserves a slot and registers the tag (spec 4.2, 4.3, 4.7: it fails
  when live and tombstoned points fill the capacity, or when the tag is registered),
  \<open>lazy_delete\<close> moves a live tag to the tombstones and leaves an unknown tag alone
  (4.8), and a successful \<open>consolidate_deletes\<close> frees the tombstoned slots (4.9). The
  vector and the labels handed to \<open>insert_point\<close> do not bear on this and are left out.
\<close>

record index =
  max_points :: nat
  live_tags :: "nat set"
  tombstoned :: "nat set"

datatype insert_result = Inserted | CapacityError | DuplicateTagError

datatype status_code = SUCCESS | FAIL | LOCK_FAIL | INCONSISTENT_COUNT_ERROR

definition index_new :: "nat \<Rightarrow> index" where
  "index_new capacity = \<lparr>max_points = capacity, live_tags = {}, tombstoned = {}\<rparr>"

definition insert_point :: "index \<Rightarrow> nat \<Rightarrow> insert_result \<times> index" where
  "insert_point idx tag =
     (if card (live_tags idx) + card (tombstoned idx) \<ge> max_points idx then (CapacityError, idx)
      else if tag \<in> live_tags idx \<or> tag \<in> tombstoned idx then (DuplicateTagError, idx)
      else (Inserted, idx\<lparr>live_tags := insert tag (live_tags idx)\<rparr>))"

definition lazy_delete :: "index \<Rightarrow> nat \<Rightarrow> index" where
  "lazy_delete idx tag =
     (if tag \<in> live_tags idx
      then idx\<lparr>live_tags := live_tags idx - {tag}, tombstoned := insert tag (tombstoned idx)\<rparr>
      else idx)"

text \<open>
  Whether a call of \<open>consolidate_deletes\<close> gets its lock or finds its counts in order
  is not the driver's to decide: the status of each call is given from outside. Of the
  statuses the driver names \<open>SUCCESS\<close>, \<open>LOCK_FAIL\<close> and \<open>INCONSISTENT_COUNT_ERROR\<close>;
  \<open>FAIL\<close> stands for every other value of the enumeration.
\<close>

definition consolidate_deletes :: "index \<Rightarrow> status_code \<Rightarrow> index" where
  "consolidate_deletes idx status = (if status = SUCCESS then idx\<lparr>tombstoned := {}\<rparr> else idx)"

section \<open>The streaming driver\<close>

text \<open>
  The state of a run: the index, the buffer \<open>data\<close>, the calls made so far in their
  order, and how many times \<open>consolidate_deletes\<close> was called. The insert and delete
  tasks run on other threads; here each runs to its end where the driver starts it.
  The driver waits for an insert task at once, and for a delete task before it starts
  the next, so that no two tasks of a kind overlap; the tags a delete task touches are
  not those of the batch inserted beside it.
\<close>

datatype event =
    Insert_point nat insert_result
  | Lazy_delete nat
  | Consolidate_deletes status_code
  | Sleep_seconds nat

record driver_state =
  index :: index
  data :: buffer
  trace :: "event list"
  consolidate_calls :: nat

text \<open>How a task ends: it returns, or it ends the process with \<open>exit(-1)\<close>.\<close>

datatype 'a run = Returned 'a | Exited

fun inserted_tags :: "event list \<Rightarrow> nat list" where
  "inserted_tags [] = []"
| "inserted_tags (Insert_point tag r # es) = tag # inserted_tags es"
| "inserted_tags (e # es) = inserted_tags es"

fun deleted_tags :: "event list \<Rightarrow> nat list" where
  "deleted_tags [] = []"
| "deleted_tags (Lazy_delete tag # es) = tag # deleted_tags es"
| "deleted_tags (e # es) = deleted_tags es"

text \<open>\<open>(int64_t) x\<close> for a \<open>size_t\<close>, and \<open>static_cast<TagT>\<close> with \<open>TagT = uint32_t\<close>.\<close>

definition to_int64 :: "nat \<Rightarrow> int" where
  "to_int64 x = (if x mod 2 ^ 64 < 2 ^ 63 then int (x mod 2 ^ 64) else int (x mod 2 ^ 64) - 2 ^ 64)"

definition to_TagT :: "int \<Rightarrow> nat" where
  "to_TagT j = nat (j mod 2 ^ 32)"

text \<open>
  The tag \<open>1 + static_cast<TagT>(j)\<close> of \<open>insert_next_batch\<close>, a sum of 32-bit values,
  and the tag \<open>static_cast<TagT>(1 + i)\<close> of \<open>delete_and_consolidate\<close>, a 64-bit sum
  cut to 32 bits.
\<close>

definition insert_tag :: "int \<Rightarrow> nat" where
  "insert_tag j = (1 + to_TagT j) mod 2 ^ 32"

definition delete_tag :: "nat \<Rightarrow> nat" where
  "delete_tag i = add64 1 i mod 2 ^ 32"

text \<open>
  One pass of the loop of \<open>insert_next_batch\<close>: the point \<open>j\<close> goes in under its tag,
  with its labels when there are labels, which the index above does not keep. A failed
  insert is counted and printed, nothing else.
\<close>

definition insert_one :: "driver_state \<Rightarrow> int \<Rightarrow> driver_state" where
  "insert_one st j =
     (let tag = insert_tag j;
          res = insert_point (index st) tag
      in st\<lparr>index := snd res, trace := trace st @ [Insert_point tag (fst res)]\<rparr>)"

text \<open>
  \<open>insert_next_batch(index, start, end, ...)\<close>:
  \<open>for (int64_t j = start; j < (int64_t)end; j++)\<close>, the passes of the parallel loop in
  the order of \<open>j\<close>.
\<close>

definition insert_next_batch :: "driver_state \<Rightarrow> nat \<Rightarrow> nat \<Rightarrow> driver_state" where
  "insert_next_batch st start end = foldl insert_one st [to_int64 start .. to_int64 end - 1]"

text \<open>
  The insert task: \<open>load_aligned_bin_part\<close>, then \<open>insert_next_batch\<close>. An exception
  of the load ends the task; the driver calls \<open>wait()\<close> on the task's future, never
  \<open>get()\<close>, so the exception goes no further.
\<close>

definition insert_task :: "byte list \<Rightarrow> nat \<Rightarrow> driver_state \<Rightarrow> nat \<Rightarrow> nat \<Rightarrow> driver_state" where
  "insert_task f sz st start end =
     (case load_aligned_bin_part f sz (data st) start (sub64 end start) of
        (Some e, data') \<Rightarrow> st\<lparr>data := data'\<rparr>
      | (None, data') \<Rightarrow> insert_next_batch (st\<lparr>data := data'\<rparr>) start end)"

text \<open>
  \<open>delete_and_consolidate(index, delete_params, start, end)\<close>, first half:
  \<open>for (size_t i = start; i < end; ++i) index.lazy_delete(static_cast<TagT>(1 + i))\<close>.
\<close>

definition lazy_delete_one :: "driver_state \<Rightarrow> nat \<Rightarrow> driver_state" where
  "lazy_delete_one st i =
     (let tag = delete_tag i
      in st\<lparr>index := lazy_delete (index st) tag, trace := trace st @ [Lazy_delete tag]\<rparr>)"

definition lazy_delete_range :: "driver_state \<Rightarrow> nat \<Rightarrow> nat \<Rightarrow> driver_state" where
  "lazy_delete_range st start end = foldl lazy_delete_one st [start ..< end]"

text \<open>
  A call of \<open>index.consolidate_deletes(delete_params)\<close>: \<open>env k\<close> is the status the
  \<open>k\<close>-th call of the run returns.
\<close>

definition call_consolidate :: "(nat \<Rightarrow> status_code) \<Rightarrow> driver_state \<Rightarrow> status_code \<times> driver_state" where
  "call_consolidate env st =
     (let status = env (consolidate_calls st)
      in (status,
          st\<lparr>index := consolidate_deletes (index st) status,
             trace := trace st @ [Consolidate_deletes status],
             consolidate_calls := Suc (consolidate_calls st)\<rparr>))"

definition sleep_for :: "nat \<Rightarrow> driver_state \<Rightarrow> driver_state" where
  "sleep_for seconds st = st\<lparr>trace := trace st @ [Sleep_seconds seconds]\<rparr>"

text \<open>
  One turn of the retry loop: the sleep and the call that follows it.
\<close>

definition retry_turn :: "(nat \<Rightarrow> status_code) \<Rightarrow> driver_state \<Rightarrow> driver_state" where
  "retry_turn env st = snd (call_consolidate env (sleep_for 5 st))"

text \<open>
  The \<open>while (report._status != SUCCESS)\<close> loop of \<open>delete_and_consolidate\<close>;
  \<open>status\<close> is the status of the last report. The branches for \<open>LOCK_FAIL\<close> and for
  \<open>INCONSISTENT_COUNT_ERROR\<close> print a message each and go on to the same sleep and the
  same next call; any other status ends the process. The loop need not end: \<open>None\<close> is
  the run that retries for ever.
\<close>

partial_function (option) consolidate_retry ::
  "(nat \<Rightarrow> status_code) \<Rightarrow> driver_state \<Rightarrow> status_code \<Rightarrow> driver_state run option"
where
  "consolidate_retry env st status =
     (if status \<noteq> SUCCESS then
        (let wait_time = 5
         in if status = LOCK_FAIL \<or> status = INCONSISTENT_COUNT_ERROR then
              (let st1 = sleep_for wait_time st;
                   report = call_consolidate env st1
               in consolidate_retry env (snd report) (fst report))
            else Some Exited)
      else Some (Returned st))"

declare consolidate_retry.simps [code]

definition delete_and_consolidate ::
  "(nat \<Rightarrow> status_code) \<Rightarrow> driver_state \<Rightarrow> nat \<Rightarrow> nat \<Rightarrow> driver_state run option"
where
  "delete_and_consolidate env st start end =
     (let st1 = lazy_delete_range st start end;
          report = call_consolidate env st1
      in consolidate_retry env (snd report) (fst report))"

text \<open>
  The body of the \<open>for\<close> loop of \<open>build_incremental_index\<close> at offset \<open>start\<close>: the
  insert task for \<open>[start, end)\<close>, then, without labels and from
  \<open>start \<ge> active_window + consolidate_interval\<close> on, the delete task. The task
  reads \<open>start_del\<close> and \<open>end_del\<close> through references to locals of the pass; here it
  is handed their values.
\<close>

definition loop_body ::
  "(nat \<Rightarrow> status_code) \<Rightarrow> byte list \<Rightarrow> nat \<Rightarrow> bool \<Rightarrow> nat \<Rightarrow> nat \<Rightarrow> nat \<Rightarrow> nat \<Rightarrow> driver_state
     \<Rightarrow> driver_state run option"
where
  "loop_body env f sz has_labels max_points_to_insert active_window consolidate_interval start st =
     (let end = min (add64 start consolidate_interval) max_points_to_insert;
          st1 = insert_task f sz st start end
      in if \<not> has_labels then
           (if start \<ge> add64 active_window consolidate_interval then
              (let start_del = sub64 (sub64 start active_window) consolidate_interval;
                   end_del = sub64 start active_window
               in delete_and_consolidate env st1 start_del end_del)
            else Some (Returned st1))
         else Some (Returned st1))"

text \<open>
  \<open>for (size_t start = active_window; start + consolidate_interval <= max_points_to_insert;
  start += consolidate_interval)\<close>. With \<open>consolidate_interval = 0\<close> it does not end.
\<close>

partial_function (option) stream_loop ::
  "(nat \<Rightarrow> status_code) \<Rightarrow> byte list \<Rightarrow> nat \<Rightarrow> bool \<Rightarrow> nat \<Rightarrow> nat \<Rightarrow> nat \<Rightarrow> nat \<Rightarrow> driver_state
     \<Rightarrow> driver_state run option"
where
  "stream_loop env f sz has_labels max_points_to_insert active_window consolidate_interval start st =
     (if add64 start consolidate_interval \<le> max_points_to_insert then
        Option.bind
          (loop_body env f sz has_labels max_points_to_insert active_window consolidate_interval
             start st)
          (\<lambda>r. case r of
                 Exited \<Rightarrow> Some Exited
               | Returned st' \<Rightarrow>
                   stream_loop env f sz has_labels max_points_to_insert active_window
                     consolidate_interval (add64 start consolidate_interval) st')
      else Some (Returned st))"

declare stream_loop.simps [code]

text \<open>
  \<open>get_bin_metadata\<close> of \<open>utils.h\<close> reads the two header words as \<open>int\<close> and assigns
  them to \<open>size_t\<close>: a value with its top bit set is sign-extended.
\<close>

definition int32_to_size_t :: "nat \<Rightarrow> nat" where
  "int32_to_size_t v = (if v < 2 ^ 31 then v else v + 2 ^ 64 - 2 ^ 32)"

definition get_bin_metadata :: "byte list \<Rightarrow> nat \<times> nat" where
  "get_bin_metadata f = (int32_to_size_t (hdr_npts f), int32_to_size_t (hdr_dim f))"

text \<open>
  \<open>build_incremental_index\<close> up to the start of the first insert task: the metadata,
  the default for \<open>max_points_to_insert\<close>, the three checks, and the index with its
  capacity. \<open>mem\<close> is the memory \<open>alloc_aligned\<close> hands out. The result is the
  exception, or \<open>max_points_to_insert\<close> and the state the tasks start from.
\<close>

definition driver_init ::
  "byte list \<Rightarrow> buffer \<Rightarrow> nat \<Rightarrow> nat \<Rightarrow> nat \<Rightarrow> error + (nat \<times> driver_state)"
where
  "driver_init f mem max_points_to_insert0 active_window consolidate_interval =
     (let num_points = fst (get_bin_metadata f);
          max_points_to_insert =
            (if max_points_to_insert0 = 0 then num_points else max_points_to_insert0)
      in if num_points < max_points_to_insert then Inl Num_points_lt_max_points
         else if max_points_to_insert < add64 active_window consolidate_interval
           then Inl Max_points_lt_window_plus_interval
         else if consolidate_interval < max_points_to_insert div 1000
           then Inl Consolidate_interval_too_small
         else
           Inr (max_points_to_insert,
                \<lparr>index = index_new (add64 active_window (mul64 4 consolidate_interval)),
                 data = mem, trace = [], consolidate_calls = 0\<rparr>))"

text \<open>
  \<open>build_incremental_index\<close>, to the end of its loop: the first window is loaded and
  inserted, then the loop runs. \<open>has_labels\<close> says whether a label file was given;
  \<open>sz\<close> is \<open>sizeof(T)\<close>. Left out, as they do not bear on the tags: the conversion
  and parsing of the label file, the universal label, the random start points, the
  timer and the saving of the index.
\<close>

definition build_incremental_index ::
  "(nat \<Rightarrow> status_code) \<Rightarrow> byte list \<Rightarrow> nat \<Rightarrow> buffer \<Rightarrow> nat \<Rightarrow> nat \<Rightarrow> nat \<Rightarrow> bool
     \<Rightarrow> (error + driver_state run) option"
where
  "build_incremental_index env f sz mem max_points_to_insert0 active_window consolidate_interval
       has_labels =
     (case driver_init f mem max_points_to_insert0 active_window consolidate_interval of
        Inl e \<Rightarrow> Some (Inl e)
      | Inr (max_points_to_insert, st0) \<Rightarrow>
          map_option Inr
            (stream_loop env f sz has_labels max_points_to_insert active_window
               consolidate_interval active_window
               (insert_task f sz st0 0 active_window)))"

section \<open>Arithmetic without wrap-around\<close>

lemma byte_bound: "unat (x :: byte) \<le> 255"
  using unsigned_less [of x, where 'a = nat] by simp

lemma u32_at_bound: "u32_at f p < 2 ^ 32"
proof -
  have "unat (f ! p) \<le> 255" "unat (f ! (p+1)) \<le> 255" "unat (f ! (p+2)) \<le> 255" "unat (f ! (p+3)) \<le> 255"
    by (rule byte_bound)+
  then show ?thesis unfolding u32_at_def by simp
qed

lemma ROUND_UP_8:
  assumes "X < 2 ^ 32"
  shows "ROUND_UP X 8 = (X div 8 + (if X mod 8 \<noteq> 0 then 1 else 0)) * 8"
  using assms unfolding ROUND_UP_def add64_def mul64_def
  by auto

lemma ROUND_UP_8_props:
  assumes "X < 2 ^ 32"
  shows "8 dvd ROUND_UP X 8" "X \<le> ROUND_UP X 8" "ROUND_UP X 8 < X + 8"
  unfolding ROUND_UP_8 [OF assms] by presburger+

lemma add64_small: "a + b < 2 ^ 64 \<Longrightarrow> add64 a b = a + b"
  by (simp add: add64_def)

lemma mul64_small: "a * b < 2 ^ 64 \<Longrightarrow> mul64 a b = a * b"
  by (simp add: mul64_def)

lemma sub64_small:
  assumes "b \<le> a" and "a < 2 ^ 64"
  shows "sub64 a b = a - b"
proof -
  have b: "b mod 2 ^ 64 = b" and a: "a mod 2 ^ 64 = a" using assms by simp_all
  have "(a + 2 ^ 64 - b) mod 2 ^ 64 = ((a - b) + 2 ^ 64) mod 2 ^ 64"
    using assms(1) by (simp add: add.commute)
  also have "\<dots> = (a - b) mod 2 ^ 64" by (rule mod_add_self2)
  also have "\<dots> = a - b" using assms(2) by simp
  finally show ?thesis unfolding sub64_def a b .
qed

lemma read_at_full:
  "pos + n \<le> length f \<Longrightarrow> length (read_at f pos n) = n"
  by (simp add: read_at_def)

lemma read_at_nth:
  "pos + n \<le> length f \<Longrightarrow> b < n \<Longrightarrow> read_at f pos n ! b = f ! (pos + b)"
  by (simp add: read_at_def)

text \<open>One point: the payload, then the padding.\<close>

lemma store_point:
  assumes "length got = D"
  shows "store_bytes (store_bytes m a got) (a + D) (replicate Z 0) k =
         (if a \<le> k \<and> k < a + D then got ! (k - a)
          else if a + D \<le> k \<and> k < a + D + Z then 0 else m k)"
  using assms by (auto simp: store_bytes_def)

lemma read_points_ok:
  assumes "dim * sz < 2 ^ 64" and "dim \<le> rd" and "rd < 2 ^ 64" and "(rd - dim) * sz < 2 ^ 64"
    and "pos + (n - i) * (dim * sz) \<le> length f"
  shows "\<exists>buf'. read_points f sz dim rd n pos i buf = (None, buf') \<and>
           (\<forall>k < i * (rd * sz). buf' k = buf k) \<and>
           (\<forall>i' b. i \<le> i' \<and> i' < n \<and> b < rd * sz \<longrightarrow>
              buf' (i' * (rd * sz) + b) =
                (if b < dim * sz then f ! (pos + (i' - i) * (dim * sz) + b) else 0))"
  using assms(5)
proof (induction "n - i" arbitrary: i pos buf)
  case 0
  then have "\<not> i < n" by simp
  then show ?case by (subst read_points.simps) auto
next
  case (Suc d)
  let ?D = "dim * sz" and ?R = "rd * sz" and ?Z = "(rd - dim) * sz"
  from Suc.hyps(2) have lt: "i < n" and d: "d = n - Suc i" by simp_all
  have D: "mul64 dim sz = ?D" using assms(1) by (simp add: mul64_def)
  have Z: "mul64 (sub64 rd dim) sz = ?Z"
    using assms(2,3,4) by (simp add: mul64_small sub64_small)
  have R: "?R = ?D + ?Z" using assms(2)
    by (metis add_mult_distrib le_add_diff_inverse)
  have a1: "i * rd * sz = i * ?R" by simp
  have a2: "(i * rd + dim) * sz = i * ?R + ?D" by (simp add: add_mult_distrib)
  have "n - i = Suc (n - Suc i)" using lt by simp
  then have split: "(n - i) * ?D = ?D + (n - Suc i) * ?D" by simp
  with Suc.prems have room: "pos + ?D \<le> length f"
    and rest: "(pos + ?D) + (n - Suc i) * ?D \<le> length f" by simp_all
  let ?got = "read_at f pos ?D"
  have len: "length ?got = ?D" using room by (rule read_at_full)
  let ?data2 = "store_bytes (store_bytes buf (i * ?R) ?got) (i * ?R + ?D) (replicate ?Z 0)"
  from Suc.hyps(1) [OF d rest, of ?data2] obtain buf' where
    run: "read_points f sz dim rd n (pos + ?D) (Suc i) ?data2 = (None, buf')"
    and below: "\<forall>k < Suc i * ?R. buf' k = ?data2 k"
    and pts: "\<forall>i' b. Suc i \<le> i' \<and> i' < n \<and> b < ?R \<longrightarrow>
              buf' (i' * ?R + b) =
                (if b < ?D then f ! (pos + ?D + (i' - Suc i) * ?D + b) else 0)"
    by blast
  have eq: "read_points f sz dim rd n pos i buf = (None, buf')"
    by (subst read_points.simps) (simp add: lt D Z a1 a2 len run Let_def)
  have frame: "\<forall>k < i * ?R. buf' k = buf k"
  proof (intro allI impI)
    fix k assume k: "k < i * ?R"
    then have "k < Suc i * ?R" by simp
    with below have "buf' k = ?data2 k" by blast
    also have "\<dots> = buf k" using k by (simp add: store_point [OF len])
    finally show "buf' k = buf k" .
  qed
  have here: "\<forall>i' b. i \<le> i' \<and> i' < n \<and> b < ?R \<longrightarrow>
              buf' (i' * ?R + b) =
                (if b < ?D then f ! (pos + (i' - i) * ?D + b) else 0)"
  proof (intro allI impI)
    fix i' b assume h: "i \<le> i' \<and> i' < n \<and> b < ?R"
    show "buf' (i' * ?R + b) = (if b < ?D then f ! (pos + (i' - i) * ?D + b) else 0)"
    proof (cases "i' = i")
      case True
      have "i * ?R + b < Suc i * ?R" using h by simp
      with below have "buf' (i * ?R + b) = ?data2 (i * ?R + b)" by blast
      also have "\<dots> = (if b < ?D then ?got ! b else 0)"
        using h R by (simp add: store_point [OF len])
      also have "\<dots> = (if b < ?D then f ! (pos + b) else 0)"
        using room by (simp add: read_at_nth)
      finally show ?thesis using True by simp
    next
      case False
      with h have ge: "Suc i \<le> i'" by simp
      then have "i' - i = Suc (i' - Suc i)" by simp
      then have "(i' - i) * ?D = ?D + (i' - Suc i) * ?D" by simp
      then have idx: "pos + (i' - i) * ?D + b = pos + ?D + (i' - Suc i) * ?D + b" by simp
      from pts ge h show ?thesis unfolding idx by blast
    qed
  qed
  from eq frame here show ?case by blast
qed

section \<open>Properties of load_aligned_bin_part\<close>

lemma hdr_simps:
  "hdr_npts (a0 # a1 # a2 # a3 # b0 # b1 # b2 # b3 # rest) =
     unat a0 + 256 * unat a1 + 65536 * unat a2 + 16777216 * unat a3"
  "hdr_dim (a0 # a1 # a2 # a3 # b0 # b1 # b2 # b3 # rest) =
     unat b0 + 256 * unat b1 + 65536 * unat b2 + 16777216 * unat b3"
  by (simp_all add: hdr_npts_def hdr_dim_def u32_at_def)

lemma load_aligned_bin_part_reads:
  assumes wf: "length f = 8 + hdr_npts f * hdr_dim f * sz"
    and small: "length f < 2 ^ 63"
    and rng: "offset_points + points_to_read \<le> hdr_npts f"
    and sz: "sz = 1 \<or> sz = 4"
  shows "\<exists>buf'. load_aligned_bin_part f sz buf offset_points points_to_read = (None, buf') \<and>
           (\<forall>i b. i < points_to_read \<and> b < ROUND_UP (hdr_dim f) 8 * sz \<longrightarrow>
              buf' (i * (ROUND_UP (hdr_dim f) 8 * sz) + b) =
                (if b < hdr_dim f * sz
                 then f ! (8 + offset_points * (hdr_dim f * sz) + i * (hdr_dim f * sz) + b) else 0))"
proof -
  let ?n = "hdr_npts f" and ?d = "hdr_dim f" and ?rd = "ROUND_UP (hdr_dim f) 8"
  have d32: "?d < 2 ^ 32" unfolding hdr_dim_def by (rule u32_at_bound)
  have rd: "?d \<le> ?rd" "?rd < ?d + 8" using ROUND_UP_8_props [OF d32] by simp_all
  have len8: "\<not> length f < 8" using wf by simp
  define T where "T = ?n * ?d * sz"
  define P where "P = offset_points * ?d * sz"
  have T: "length f = 8 + T" using wf by (simp add: T_def)
  have PT: "P \<le> T" unfolding P_def T_def using rng by (simp add: mult_le_mono1)
  have tot: "T < 2 ^ 64" using T small by simp
  have sz1: "1 \<le> sz" using sz by auto
  have nd: "?n * ?d < 2 ^ 64"
  proof -
    have "?n * ?d * 1 \<le> T" unfolding T_def using sz1 by (rule mult_le_mono2)
    then have "?n * ?d \<le> T" by simp
    then show ?thesis using tot by (rule le_less_trans)
  qed
  have m1: "mul64 (mul64 ?n ?d) sz = T"
    unfolding mul64_small [OF nd] T_def [symmetric] using tot [unfolded T_def]
    by (simp only: mul64_small T_def)
  have size_ok: "add64 (mul64 (mul64 ?n ?d) sz) 8 = length f"
    unfolding m1 using T small by (simp add: add64_small)
  have range_ok: "\<not> add64 offset_points points_to_read > ?n"
    using rng u32_at_bound [of f 0] unfolding hdr_npts_def by (simp add: add64_small)
  have offd: "offset_points * ?d < 2 ^ 64"
  proof -
    have "offset_points * ?d \<le> ?n * ?d" using rng by (simp add: mult_le_mono1)
    then show ?thesis using nd by (rule le_less_trans)
  qed
  have P64: "P < 2 ^ 64" using PT tot by (rule le_less_trans)
  have m2: "mul64 (mul64 offset_points ?d) sz = P"
    unfolding mul64_small [OF offd] using P64 [unfolded P_def]
    by (simp only: mul64_small P_def)
  have P': "offset_points * (?d * sz) = P" by (simp add: P_def mult.assoc)
  have pos: "add64 8 (mul64 (mul64 offset_points ?d) sz) = 8 + offset_points * (?d * sz)"
    unfolding m2 P' using PT T small by (simp add: add64_small)
  have pos63: "\<not> 8 + offset_points * (?d * sz) \<ge> (2::nat) ^ 63"
    unfolding P' using PT T small by simp
  have dsz: "?d * sz < 2 ^ 64"
  proof -
    have "?d * sz \<le> 2 ^ 32 * 4" using d32 sz by (intro mult_mono) auto
    then show ?thesis by simp
  qed
  have rd64: "?rd < 2 ^ 64" using rd(2) d32 by simp
  have pad: "(?rd - ?d) * sz < 2 ^ 64"
  proof -
    have "(?rd - ?d) * sz \<le> 8 * 4" using rd sz by (intro mult_mono) auto
    then show ?thesis by simp
  qed
  have "(offset_points + points_to_read) * (?d * sz) \<le> ?n * (?d * sz)"
    using rng by (rule mult_le_mono1)
  also have "?n * (?d * sz) = T" by (simp add: T_def mult.assoc)
  finally have "offset_points * (?d * sz) + points_to_read * (?d * sz) \<le> T"
    by (simp only: add_mult_distrib)
  then have room: "8 + offset_points * (?d * sz) + (points_to_read - 0) * (?d * sz) \<le> length f"
    unfolding T by simp
  from read_points_ok [OF dsz rd(1) rd64 pad room, of buf] obtain buf' where
    all: "read_points f sz ?d ?rd points_to_read (8 + offset_points * (?d * sz)) 0 buf = (None, buf') \<and>
           (\<forall>k < 0 * (?rd * sz). buf' k = buf k) \<and>
           (\<forall>i' b. 0 \<le> i' \<and> i' < points_to_read \<and> b < ?rd * sz \<longrightarrow>
              buf' (i' * (?rd * sz) + b) =
                (if b < ?d * sz then f ! (8 + offset_points * (?d * sz) + (i' - 0) * (?d * sz) + b) else 0))"
    ..
  from all have run:
    "read_points f sz ?d ?rd points_to_read (8 + offset_points * (?d * sz)) 0 buf = (None, buf')"
    by (rule conjunct1)
  from all have pts: "\<forall>i' b. 0 \<le> i' \<and> i' < points_to_read \<and> b < ?rd * sz \<longrightarrow>
              buf' (i' * (?rd * sz) + b) =
                (if b < ?d * sz then f ! (8 + offset_points * (?d * sz) + (i' - 0) * (?d * sz) + b) else 0)"
    by (rule conjunct2 [OF conjunct2])
  have "load_aligned_bin_part f sz buf offset_points points_to_read = (None, buf')"
    unfolding load_aligned_bin_part_def Let_def
    by (simp only: len8 size_ok range_ok pos pos63 run if_False simp_thms)
  moreover have "\<forall>i b. i < points_to_read \<and> b < ?rd * sz \<longrightarrow>
              buf' (i * (?rd * sz) + b) =
                (if b < ?d * sz then f ! (8 + offset_points * (?d * sz) + i * (?d * sz) + b) else 0)"
    using pts by simp
  ultimately show ?thesis by (intro exI conjI)
qed

lemma idx_lt:
  fixes j :: nat
  assumes "j < m" and "c < s"
  shows "j * s + c < m * s"
proof -
  have "j * s + c < Suc j * s" using assms(2) by simp
  also have "\<dots> \<le> m * s" using assms(1) by (intro mult_le_mono1) simp
  finally show ?thesis .
qed

lemma coordinate_nth:
  "c < sz \<Longrightarrow> coordinate sz buf k ! c = buf (k * sz + c)"
  by (simp add: coordinate_def)

lemma length_coordinate: "length (coordinate sz buf k) = sz"
  by (simp add: coordinate_def)

text \<open>
  Claim C7. A batch that \<open>load_aligned_bin_part\<close> loads from a well-formed file lies
  in the buffer with \<open>ROUND_UP(dim, 8)\<close> coordinates to the point: the least multiple
  of 8 that is not below \<open>dim\<close>. The first \<open>dim\<close> coordinates of point \<open>i\<close> are those
  of point \<open>offset_points + i\<close> of the file, the others are zero.
\<close>

theorem load_aligned_bin_part_padding:
  assumes wf: "length f = 8 + hdr_npts f * hdr_dim f * sz"
    and small: "length f < 2 ^ 63"
    and rng: "offset_points + points_to_read \<le> hdr_npts f"
    and sz: "sz = 1 \<or> sz = 4"
  shows "\<exists>buf'. load_aligned_bin_part f sz buf offset_points points_to_read = (None, buf') \<and>
           (\<forall>i j. i < points_to_read \<and> j < ROUND_UP (hdr_dim f) 8 \<longrightarrow>
              coordinate sz buf' (i * ROUND_UP (hdr_dim f) 8 + j) =
                (if j < hdr_dim f
                 then file_coordinate sz f ((offset_points + i) * hdr_dim f + j)
                 else replicate sz 0)) \<and>
           8 dvd ROUND_UP (hdr_dim f) 8 \<and> hdr_dim f \<le> ROUND_UP (hdr_dim f) 8 \<and>
           ROUND_UP (hdr_dim f) 8 < hdr_dim f + 8"
proof -
  let ?n = "hdr_npts f" and ?d = "hdr_dim f" and ?rd = "ROUND_UP (hdr_dim f) 8"
  have d32: "?d < 2 ^ 32" unfolding hdr_dim_def by (rule u32_at_bound)
  note rd = ROUND_UP_8_props [OF d32]
  from load_aligned_bin_part_reads [OF wf small rng sz, of buf] obtain buf' where
    all: "load_aligned_bin_part f sz buf offset_points points_to_read = (None, buf') \<and>
           (\<forall>i b. i < points_to_read \<and> b < ?rd * sz \<longrightarrow>
              buf' (i * (?rd * sz) + b) =
                (if b < ?d * sz
                 then f ! (8 + offset_points * (?d * sz) + i * (?d * sz) + b) else 0))"
    ..
  then have run: "load_aligned_bin_part f sz buf offset_points points_to_read = (None, buf')"
    by (rule conjunct1)
  from all have bytes: "\<And>i b. i < points_to_read \<Longrightarrow> b < ?rd * sz \<Longrightarrow>
              buf' (i * (?rd * sz) + b) =
                (if b < ?d * sz
                 then f ! (8 + offset_points * (?d * sz) + i * (?d * sz) + b) else 0)"
    by blast
  have coords: "coordinate sz buf' (i * ?rd + j) =
          (if j < ?d then file_coordinate sz f ((offset_points + i) * ?d + j) else replicate sz 0)"
    if i: "i < points_to_read" and j: "j < ?rd" for i j
  proof (cases "j < ?d")
    case True
    let ?k = "(offset_points + i) * ?d + j"
    have "Suc (offset_points + i) \<le> ?n" using i rng by simp
    then have "Suc (offset_points + i) * ?d \<le> ?n * ?d" by (rule mult_le_mono1)
    moreover have "Suc ?k \<le> Suc (offset_points + i) * ?d" using True by simp
    ultimately have "Suc ?k \<le> ?n * ?d" by (rule le_trans [rotated])
    then have "Suc ?k * sz \<le> ?n * ?d * sz" by (rule mult_le_mono1)
    then have infile: "8 + ?k * sz + sz \<le> length f" unfolding wf by simp
    have "coordinate sz buf' (i * ?rd + j) ! c = file_coordinate sz f ?k ! c" if c: "c < sz" for c
    proof -
      have b1: "j * sz + c < ?rd * sz" using j c by (rule idx_lt)
      have b2: "j * sz + c < ?d * sz" using True c by (rule idx_lt)
      have "coordinate sz buf' (i * ?rd + j) ! c = buf' ((i * ?rd + j) * sz + c)"
        using c by (rule coordinate_nth)
      also have "(i * ?rd + j) * sz + c = i * (?rd * sz) + (j * sz + c)"
        by (simp add: add_mult_distrib mult.assoc)
      also have "buf' (i * (?rd * sz) + (j * sz + c)) =
                 f ! (8 + offset_points * (?d * sz) + i * (?d * sz) + (j * sz + c))"
        using bytes [OF i b1] b2 by simp
      also have "8 + offset_points * (?d * sz) + i * (?d * sz) + (j * sz + c) = 8 + ?k * sz + c"
        by (simp add: add_mult_distrib mult.assoc)
      also have "f ! (8 + ?k * sz + c) = file_coordinate sz f ?k ! c"
        unfolding file_coordinate_def using infile c by (simp add: read_at_nth)
      finally show ?thesis .
    qed
    moreover have "length (file_coordinate sz f ?k) = sz"
      unfolding file_coordinate_def using infile by (rule read_at_full)
    ultimately have "coordinate sz buf' (i * ?rd + j) = file_coordinate sz f ?k"
      by (intro nth_equalityI) (simp_all add: length_coordinate)
    with True show ?thesis by simp
  next
    case False
    have "coordinate sz buf' (i * ?rd + j) ! c = replicate sz 0 ! c" if c: "c < sz" for c
    proof -
      have b1: "j * sz + c < ?rd * sz" using j c by (rule idx_lt)
      have "?d * sz \<le> j * sz" using False by (intro mult_le_mono1) simp
      then have b2: "\<not> j * sz + c < ?d * sz" by linarith
      have "coordinate sz buf' (i * ?rd + j) ! c = buf' ((i * ?rd + j) * sz + c)"
        using c by (rule coordinate_nth)
      also have "(i * ?rd + j) * sz + c = i * (?rd * sz) + (j * sz + c)"
        by (simp add: add_mult_distrib mult.assoc)
      also have "buf' (i * (?rd * sz) + (j * sz + c)) = 0"
        using bytes [OF i b1] b2 by simp
      finally show ?thesis using c by simp
    qed
    then have "coordinate sz buf' (i * ?rd + j) = replicate sz 0"
      by (intro nth_equalityI) (simp_all add: length_coordinate)
    with False show ?thesis by simp
  qed
  from run coords rd show ?thesis by blast
qed

theorem load_aligned_bin_part_padding_witness:
  "length [2, 0, 0, 0, 3, 0, 0, 0, 10, 11, 12, 20, 21, 22 :: byte] =
     8 + hdr_npts [2, 0, 0, 0, 3, 0, 0, 0, 10, 11, 12, 20, 21, 22]
         * hdr_dim [2, 0, 0, 0, 3, 0, 0, 0, 10, 11, 12, 20, 21, 22] * 1 \<and>
   (\<exists>buf'. load_aligned_bin_part [2, 0, 0, 0, 3, 0, 0, 0, 10, 11, 12, 20, 21, 22] 1 (\<lambda>k. 9) 1 1
              = (None, buf') \<and>
            coordinate 1 buf' 0 = [20] \<and> coordinate 1 buf' 1 = [21] \<and>
            coordinate 1 buf' 2 = [22] \<and> coordinate 1 buf' 3 = [0] \<and>
            coordinate 1 buf' 7 = [0]) \<and>
   ROUND_UP (hdr_dim [2, 0, 0, 0, 3, 0, 0, 0, 10, 11, 12, 20, 21, 22]) 8 = 8"
proof -
  let ?f = "[2, 0, 0, 0, 3, 0, 0, 0, 10, 11, 12, 20, 21, 22 :: byte]"
  have n: "hdr_npts ?f = 2" and d: "hdr_dim ?f = 3" by (simp_all add: hdr_simps)
  have a: "length ?f = 8 + hdr_npts ?f * hdr_dim ?f * 1" by (simp add: n d)
  have b: "length ?f < 2 ^ 63" by simp
  have c: "1 + 1 \<le> hdr_npts ?f" by (simp add: n)
  have e: "(1::nat) = 1 \<or> (1::nat) = 4" by simp
  have r3: "ROUND_UP 3 8 = 8" by (simp add: ROUND_UP_def add64_def mul64_def)
  have r: "ROUND_UP (hdr_dim ?f) 8 = 8" by (simp add: d r3)
  from load_aligned_bin_part_padding [OF a b c e, of "\<lambda>k. 9"] obtain buf' where
    all: "load_aligned_bin_part ?f 1 (\<lambda>k. 9) 1 1 = (None, buf') \<and>
           (\<forall>i j. i < 1 \<and> j < ROUND_UP (hdr_dim ?f) 8 \<longrightarrow>
              coordinate 1 buf' (i * ROUND_UP (hdr_dim ?f) 8 + j) =
                (if j < hdr_dim ?f
                 then file_coordinate 1 ?f ((1 + i) * hdr_dim ?f + j)
                 else replicate 1 0)) \<and>
           8 dvd ROUND_UP (hdr_dim ?f) 8 \<and> hdr_dim ?f \<le> ROUND_UP (hdr_dim ?f) 8 \<and>
           ROUND_UP (hdr_dim ?f) 8 < hdr_dim ?f + 8"
    ..
  from all have run: "load_aligned_bin_part ?f 1 (\<lambda>k. 9) 1 1 = (None, buf')"
    by (rule conjunct1)
  from all have "\<forall>i j. i < 1 \<and> j < ROUND_UP (hdr_dim ?f) 8 \<longrightarrow>
              coordinate 1 buf' (i * ROUND_UP (hdr_dim ?f) 8 + j) =
                (if j < hdr_dim ?f
                 then file_coordinate 1 ?f ((1 + i) * hdr_dim ?f + j)
                 else replicate 1 0)"
    by (rule conjunct1 [OF conjunct2])
  then have co: "\<And>j. j < 8 \<Longrightarrow> coordinate 1 buf' j =
                (if j < 3 then file_coordinate 1 ?f (3 + j) else replicate 1 0)"
    unfolding d r3 by simp
  have "coordinate 1 buf' 0 = [20]" using co [of 0] by (simp add: file_coordinate_def read_at_def)
  moreover have "coordinate 1 buf' 1 = [21]" using co [of 1] by (simp add: file_coordinate_def read_at_def)
  moreover have "coordinate 1 buf' 2 = [22]" using co [of 2] by (simp add: file_coordinate_def read_at_def)
  moreover have "coordinate 1 buf' 3 = [0]" using co [of 3] by simp
  moreover have "coordinate 1 buf' 7 = [0]" using co [of 7] by simp
  ultimately have "\<exists>buf'. load_aligned_bin_part ?f 1 (\<lambda>k. 9) 1 1 = (None, buf') \<and>
            coordinate 1 buf' 0 = [20] \<and> coordinate 1 buf' 1 = [21] \<and>
            coordinate 1 buf' 2 = [22] \<and> coordinate 1 buf' 3 = [0] \<and>
            coordinate 1 buf' 7 = [0]"
    using run by (intro exI [of _ buf'] conjI)
  then show ?thesis by (intro conjI a r)
qed



section \<open>Properties of load_truthset\<close>

lemma load_truthset_unfold:
  assumes "8 \<le> length f" and "hdr_npts f * hdr_dim f = n" and n4: "n * 4 < 2 ^ 64"
  shows "load_truthset f =
     (if length f = add64 (n * 4) 8 then
        (if length f < 8 + n * 4 then Inl Io_failure
         else Inr (hdr_npts f, hdr_dim f, read_at f 8 (n * 4), None))
      else if length f = add64 (mul64 (mul64 (mul64 2 (hdr_npts f)) (hdr_dim f)) 4) 8 then
        (if length f < 8 + n * 4 then Inl Io_failure
         else if length f < 8 + n * 4 + n * 4 then Inl Io_failure
         else Inr (hdr_npts f, hdr_dim f, read_at f 8 (n * 4), Some (read_at f (8 + n * 4) (n * 4))))
      else Inl File_size_mismatch)"
proof -
  have n: "n < 2 ^ 64" using n4 by simp
  have m: "mul64 (hdr_npts f) (hdr_dim f) = n" using assms(2) n by (simp add: mul64_small)
  have m4: "mul64 n 4 = n * 4" using n4 by (rule mul64_small)
  have l1: "length (read_at f 8 (n * 4)) < n * 4 \<longleftrightarrow> length f < 8 + n * 4"
    using assms(1) by (auto simp: read_at_def)
  have l2: "\<not> length f < 8 + n * 4 \<Longrightarrow>
      length (read_at f (8 + n * 4) (n * 4)) < n * 4 \<longleftrightarrow> length f < 8 + n * 4 + n * 4"
    by (auto simp: read_at_def)
  have ge: "\<not> length f < 8" using assms(1) by simp
  have na: "\<not> (2::nat) ^ 64 \<le> n * 4" using n4 by simp
  show ?thesis
    unfolding load_truthset_def Let_def m m4 l1
    by (simp only: ge na if_False) (simp add: l2)
qed


lemma with_dists_size:
  assumes "np < 2 ^ 32"
  shows "mul64 (mul64 (mul64 2 np) d) 4 = (np * d * 8) mod 2 ^ 64"
proof -
  have "mul64 2 np = 2 * np" using assms by (simp add: mul64_small)
  then have "mul64 (mul64 (mul64 2 np) d) 4 = ((2 * np * d) mod 2 ^ 64 * 4) mod 2 ^ 64"
    by (simp add: mul64_def)
  also have "\<dots> = (2 * np * d * 4) mod 2 ^ 64" by (rule mod_mult_left_eq)
  also have "2 * np * d * 4 = np * d * 8" by simp
  finally show ?thesis .
qed


lemma mod_le_self: "(a::nat) mod m \<le> a"
  by simp

text \<open>
  Claim C9. For a truthset file with header values \<open>npts\<close> and \<open>dim\<close>,
  \<open>load_truthset\<close> succeeds exactly when the file has \<open>8 + npts * dim * 4\<close> bytes
  (it then loads the ids alone) or \<open>8 + 2 * npts * dim * 4\<close> bytes (it then loads the
  ids and the distances), and throws otherwise. The size decides the variant: where
  the two sizes are the same, for \<open>npts * dim = 0\<close>, it is the ids alone.
\<close>

theorem load_truthset_sizes:
  assumes small: "length f < 2 ^ 64"
  shows "(length f = 8 + hdr_npts f * hdr_dim f * 4 \<longrightarrow>
           load_truthset f =
             Inr (hdr_npts f, hdr_dim f, read_at f 8 (hdr_npts f * hdr_dim f * 4), None)) \<and>
         (length f = 8 + 2 * (hdr_npts f * hdr_dim f * 4) \<and> hdr_npts f * hdr_dim f \<noteq> 0 \<longrightarrow>
           load_truthset f =
             Inr (hdr_npts f, hdr_dim f, read_at f 8 (hdr_npts f * hdr_dim f * 4),
                  Some (read_at f (8 + hdr_npts f * hdr_dim f * 4) (hdr_npts f * hdr_dim f * 4)))) \<and>
         (length f \<noteq> 8 + hdr_npts f * hdr_dim f * 4 \<and>
          length f \<noteq> 8 + 2 * (hdr_npts f * hdr_dim f * 4) \<longrightarrow>
           (\<exists>e. load_truthset f = Inl e))"
proof -
  define n where "n = hdr_npts f * hdr_dim f"
  define q where "q = n * 4"
  have np: "hdr_npts f < 2 ^ 32" unfolding hdr_npts_def by (rule u32_at_bound)
  have wd: "mul64 (mul64 (mul64 2 (hdr_npts f)) (hdr_dim f)) 4 = (q + q) mod 2 ^ 64"
    unfolding with_dists_size [OF np] n_def [symmetric] q_def by (simp add: algebra_simps)
  have nn: "hdr_npts f * hdr_dim f = n" by (simp add: n_def)
  have A: "load_truthset f = Inr (hdr_npts f, hdr_dim f, read_at f 8 q, None)"
    if len: "length f = 8 + q"
  proof -
    have q64: "n * 4 < 2 ^ 64" using len small by (simp add: q_def)
    have ge: "8 \<le> length f" using len by simp
    have a: "add64 (n * 4) 8 = length f" using len small by (simp add: add64_small q_def)
    show ?thesis
      unfolding load_truthset_unfold [OF ge nn q64] a using len by (simp add: q_def)
  qed
  have B: "load_truthset f =
             Inr (hdr_npts f, hdr_dim f, read_at f 8 q, Some (read_at f (8 + q) q))"
    if len: "length f = 8 + 2 * q" and n0: "n \<noteq> 0"
  proof -
    have q64: "n * 4 < 2 ^ 64" using len small by (simp add: q_def)
    have ge: "8 \<le> length f" using len by simp
    have a: "add64 (n * 4) 8 \<noteq> length f"
      using len small n0 by (simp add: add64_small q_def)
    have "q + q < 2 ^ 64" using len small by simp
    then have b: "add64 (mul64 (mul64 (mul64 2 (hdr_npts f)) (hdr_dim f)) 4) 8 = length f"
      unfolding wd using len small by (simp add: add64_small)
    show ?thesis
      unfolding load_truthset_unfold [OF ge nn q64] b using a len by (simp add: q_def)
  qed
  have C: "\<exists>e. load_truthset f = Inl e"
    if ne1: "length f \<noteq> 8 + q" and ne2: "length f \<noteq> 8 + 2 * q"
  proof (cases "8 \<le> length f")
    case False
    then show ?thesis by (simp add: load_truthset_def)
  next
    case ge: True
    show ?thesis
    proof (cases "n * 4 < 2 ^ 64")
      case False
      have n64: "n < 2 ^ 64"
      proof -
        have "hdr_dim f < 2 ^ 32" unfolding hdr_dim_def by (rule u32_at_bound)
        with np have "hdr_npts f * hdr_dim f < 2 ^ 32 * 2 ^ 32"
          by (intro mult_strict_mono) simp_all
        then show ?thesis by (simp add: n_def)
      qed
      have m: "mul64 (hdr_npts f) (hdr_dim f) = n" using n64 nn by (simp add: mul64_small)
      have bad: "(2::nat) ^ 64 \<le> n * 4" using False by simp
      show ?thesis unfolding load_truthset_def Let_def m using bad by simp
    next
      case q64: True
      have le1: "add64 (n * 4) 8 \<le> 8 + q" unfolding add64_def q_def by (simp add: mod_le_self)
      have "(q + q) mod 2 ^ 64 \<le> q + q" by (rule mod_le_self)
      moreover have "add64 ((q + q) mod 2 ^ 64) 8 \<le> (q + q) mod 2 ^ 64 + 8"
        unfolding add64_def by (rule mod_le_self)
      ultimately have le2: "add64 (mul64 (mul64 (mul64 2 (hdr_npts f)) (hdr_dim f)) 4) 8 \<le> 8 + 2 * q"
        unfolding wd by simp
      have r1: "length f = add64 (n * 4) 8 \<Longrightarrow> length f < 8 + n * 4"
        using le1 ne1 by (simp add: q_def)
      have r2: "length f = add64 (mul64 (mul64 (mul64 2 (hdr_npts f)) (hdr_dim f)) 4) 8 \<Longrightarrow>
                length f < 8 + n * 4 + n * 4"
        using le2 ne2 by (simp add: q_def)
      show ?thesis
        unfolding load_truthset_unfold [OF ge nn q64] using r1 r2 by auto
    qed
  qed
  from A B C show ?thesis unfolding nn q_def by blast
qed

theorem load_truthset_sizes_witness:
  "load_truthset [1, 0, 0, 0, 2, 0, 0, 0, 1, 0, 0, 0, 2, 0, 0, 0] =
     Inr (1, 2, [1, 0, 0, 0, 2, 0, 0, 0], None) \<and>
   load_truthset [1, 0, 0, 0, 1, 0, 0, 0, 7, 0, 0, 0, 0, 0, 128, 63] =
     Inr (1, 1, [7, 0, 0, 0], Some [0, 0, 128, 63]) \<and>
   (\<exists>e. load_truthset [1, 0, 0, 0, 1, 0, 0, 0, 7] = Inl e)"
proof -
  let ?f1 = "[1, 0, 0, 0, 2, 0, 0, 0, 1, 0, 0, 0, 2, 0, 0, 0 :: byte]"
  let ?f2 = "[1, 0, 0, 0, 1, 0, 0, 0, 7, 0, 0, 0, 0, 0, 128, 63 :: byte]"
  let ?f3 = "[1, 0, 0, 0, 1, 0, 0, 0, 7 :: byte]"
  have s1: "length ?f1 < 2 ^ 64" and s2: "length ?f2 < 2 ^ 64" and s3: "length ?f3 < 2 ^ 64"
    by simp_all
  have a: "load_truthset ?f1 = Inr (1, 2, [1, 0, 0, 0, 2, 0, 0, 0], None)"
    using load_truthset_sizes [OF s1] by (simp add: hdr_simps read_at_def)
  have b: "load_truthset ?f2 = Inr (1, 1, [7, 0, 0, 0], Some [0, 0, 128, 63])"
    using load_truthset_sizes [OF s2] by (simp add: hdr_simps read_at_def)
  have c: "\<exists>e. load_truthset ?f3 = Inl e"
    using load_truthset_sizes [OF s3] by (simp add: hdr_simps)
  from a b c show ?thesis by (intro conjI)
qed

section \<open>Casts and tags\<close>

lemma upto_int_conv: "[int a .. int b - 1] = map int [a ..< b]"
proof (induction b)
  case 0
  then show ?case by simp
next
  case (Suc b)
  show ?case
  proof (cases "a \<le> b")
    case True
    then have "[int a .. int (Suc b) - 1] = [int a .. int b - 1] @ [int b]"
      using upto_rec2 [of "int a" "int b"] by simp
    with Suc True show ?thesis by simp
  next
    case False
    then show ?thesis by simp
  qed
qed

lemma to_int64_small: "x < 2 ^ 63 \<Longrightarrow> to_int64 x = int x"
  by (simp add: to_int64_def)

lemma to_TagT_small: "j < 2 ^ 32 \<Longrightarrow> to_TagT (int j) = j"
proof -
  assume "j < 2 ^ 32"
  then have "int j mod 2 ^ 32 = int j" by simp
  then show ?thesis by (simp add: to_TagT_def)
qed

lemma inserted_tags_append:
  "inserted_tags (xs @ ys) = inserted_tags xs @ inserted_tags ys"
  by (induction xs rule: inserted_tags.induct) simp_all

lemma deleted_tags_append:
  "deleted_tags (xs @ ys) = deleted_tags xs @ deleted_tags ys"
  by (induction xs rule: deleted_tags.induct) simp_all

section \<open>The retry loop\<close>

text \<open>The retry loop, one turn at a time.\<close>

lemma consolidate_retry_SUCCESS:
  "consolidate_retry env st SUCCESS = Some (Returned st)"
  by (subst consolidate_retry.simps) simp

lemma consolidate_retry_FAIL:
  "consolidate_retry env st FAIL = Some Exited"
  by (subst consolidate_retry.simps) simp

lemma consolidate_retry_LOCK_FAIL:
  "consolidate_retry env st LOCK_FAIL =
     consolidate_retry env (snd (call_consolidate env (sleep_for 5 st)))
       (fst (call_consolidate env (sleep_for 5 st)))"
  by (subst consolidate_retry.simps) (simp add: Let_def)

lemma consolidate_retry_INCONSISTENT:
  "consolidate_retry env st INCONSISTENT_COUNT_ERROR =
     consolidate_retry env (snd (call_consolidate env (sleep_for 5 st)))
       (fst (call_consolidate env (sleep_for 5 st)))"
  by (subst consolidate_retry.simps) (simp add: Let_def)

lemmas consolidate_retry_turn =
  consolidate_retry_SUCCESS consolidate_retry_FAIL consolidate_retry_LOCK_FAIL
  consolidate_retry_INCONSISTENT

lemma retry_turn_simps:
  "consolidate_calls (retry_turn env st) = Suc (consolidate_calls st)"
  "trace (retry_turn env st) =
     trace st @ [Sleep_seconds 5, Consolidate_deletes (env (consolidate_calls st))]"
  "index (retry_turn env st) = consolidate_deletes (index st) (env (consolidate_calls st))"
  "data (retry_turn env st) = data st"
  "fst (call_consolidate env (sleep_for 5 st)) = env (consolidate_calls st)"
  by (simp_all add: retry_turn_def call_consolidate_def sleep_for_def Let_def)

lemma concat_map_shift:
  "concat (map g [0 ..< Suc m]) = g 0 @ concat (map (\<lambda>i. g (Suc i)) [0 ..< m])"
proof -
  have "[0 ..< Suc m] = 0 # [Suc 0 ..< Suc m]" by (rule upt_conv_Cons) simp
  also have "[Suc 0 ..< Suc m] = map Suc [0 ..< m]" by (rule map_Suc_upt [symmetric])
  finally have "concat (map g [0 ..< Suc m]) = concat (map g (0 # map Suc [0 ..< m]))"
    by (rule arg_cong)
  also have "\<dots> = g 0 @ concat (map (\<lambda>i. g (Suc i)) [0 ..< m])"
    by (simp only: list.map concat.simps map_map comp_def)
  finally show ?thesis .
qed

lemma consolidate_retry_run:
  assumes "\<forall>i<n. env (consolidate_calls st + i) = LOCK_FAIL
                \<or> env (consolidate_calls st + i) = INCONSISTENT_COUNT_ERROR"
    and "env (consolidate_calls st + n) = SUCCESS"
    and "status = LOCK_FAIL \<or> status = INCONSISTENT_COUNT_ERROR"
  shows "\<exists>st'. consolidate_retry env st status = Some (Returned st') \<and>
           trace st' = trace st @
             concat (map (\<lambda>i. [Sleep_seconds 5, Consolidate_deletes (env (consolidate_calls st + i))])
                       [0 ..< Suc n]) \<and>
           consolidate_calls st' = consolidate_calls st + Suc n \<and>
           index st' = (index st)\<lparr>tombstoned := {}\<rparr> \<and>
           data st' = data st"
  using assms
proof (induction n arbitrary: st status)
  case 0
  let ?st2 = "retry_turn env st"
  have step: "consolidate_retry env st status = consolidate_retry env ?st2 (env (consolidate_calls st))"
    using "0.prems"(3) by (auto simp: consolidate_retry_turn retry_turn_simps retry_turn_def)
  have s: "env (consolidate_calls st) = SUCCESS" using "0.prems"(2) by simp
  have "consolidate_retry env st status = Some (Returned ?st2)"
    unfolding step s by (rule consolidate_retry_SUCCESS)
  moreover have "index ?st2 = (index st)\<lparr>tombstoned := {}\<rparr>"
    by (simp add: retry_turn_simps s consolidate_deletes_def)
  ultimately show ?case by (simp add: retry_turn_simps)
next
  case (Suc n)
  let ?st2 = "retry_turn env st"
  have step: "consolidate_retry env st status = consolidate_retry env ?st2 (env (consolidate_calls st))"
    using Suc.prems(3) by (auto simp: consolidate_retry_turn retry_turn_simps retry_turn_def)
  have s0: "env (consolidate_calls st) = LOCK_FAIL \<or> env (consolidate_calls st) = INCONSISTENT_COUNT_ERROR"
    using Suc.prems(1) by (metis add.right_neutral zero_less_Suc)
  have a: "\<forall>i<n. env (consolidate_calls ?st2 + i) = LOCK_FAIL
                \<or> env (consolidate_calls ?st2 + i) = INCONSISTENT_COUNT_ERROR"
  proof (intro allI impI)
    fix i assume "i < n"
    then have "Suc i < Suc n" by simp
    with Suc.prems(1) have "env (consolidate_calls st + Suc i) = LOCK_FAIL
                \<or> env (consolidate_calls st + Suc i) = INCONSISTENT_COUNT_ERROR" by blast
    then show "env (consolidate_calls ?st2 + i) = LOCK_FAIL
                \<or> env (consolidate_calls ?st2 + i) = INCONSISTENT_COUNT_ERROR"
      by (simp add: retry_turn_simps)
  qed
  have b: "env (consolidate_calls ?st2 + n) = SUCCESS"
    using Suc.prems(2) by (simp add: retry_turn_simps)
  from Suc.IH [OF a b s0] obtain st' where
    r: "consolidate_retry env ?st2 (env (consolidate_calls st)) = Some (Returned st')"
    and t: "trace st' = trace ?st2 @
             concat (map (\<lambda>i. [Sleep_seconds 5, Consolidate_deletes (env (consolidate_calls ?st2 + i))])
                       [0 ..< Suc n])"
    and c: "consolidate_calls st' = consolidate_calls ?st2 + Suc n"
    and x: "index st' = (index ?st2)\<lparr>tombstoned := {}\<rparr>"
    and d: "data st' = data ?st2"
    by blast
  have idx: "index ?st2 = index st"
    using s0 by (auto simp: retry_turn_simps consolidate_deletes_def)
  have sh: "concat (map (\<lambda>i. [Sleep_seconds 5, Consolidate_deletes (env (consolidate_calls st + i))])
                       [0 ..< Suc (Suc n)]) =
          [Sleep_seconds 5, Consolidate_deletes (env (consolidate_calls st + 0))] @
           concat (map (\<lambda>i. [Sleep_seconds 5, Consolidate_deletes (env (consolidate_calls st + Suc i))])
                       [0 ..< Suc n])"
    by (rule concat_map_shift)
  have tr: "trace st' = trace st @
             concat (map (\<lambda>i. [Sleep_seconds 5, Consolidate_deletes (env (consolidate_calls st + i))])
                       [0 ..< Suc (Suc n)])"
    unfolding sh t by (simp only: retry_turn_simps append_assoc add_Suc add_Suc_right add_0_right)
  have "consolidate_calls st' = consolidate_calls st + Suc (Suc n)"
    using c by (simp add: retry_turn_simps)
  moreover have "index st' = (index st)\<lparr>tombstoned := {}\<rparr>" using x idx by simp
  moreover have "data st' = data st" using d by (simp add: retry_turn_simps)
  moreover have "consolidate_retry env st status = Some (Returned st')" unfolding step by (rule r)
  ultimately show ?case using tr by (intro exI [of _ st'] conjI)
qed

section \<open>Batches of inserts and lazy deletes\<close>

lemma lazy_delete_one_simps:
  "data (lazy_delete_one st i) = data st"
  "consolidate_calls (lazy_delete_one st i) = consolidate_calls st"
  "trace (lazy_delete_one st i) = trace st @ [Lazy_delete (delete_tag i)]"
  "index (lazy_delete_one st i) = lazy_delete (index st) (delete_tag i)"
  by (simp_all add: lazy_delete_one_def Let_def)

lemma lazy_delete_simps:
  "max_points (lazy_delete idx t) = max_points idx"
  "live_tags (lazy_delete idx t) = live_tags idx - {t}"
  "tombstoned (lazy_delete idx t) = tombstoned idx \<union> (live_tags idx \<inter> {t})"
  by (auto simp: lazy_delete_def)

lemma foldl_lazy_delete_one:
  "data (foldl lazy_delete_one st xs) = data st \<and>
   consolidate_calls (foldl lazy_delete_one st xs) = consolidate_calls st \<and>
   trace (foldl lazy_delete_one st xs) =
     trace st @ map (\<lambda>i. Lazy_delete (delete_tag i)) xs \<and>
   max_points (index (foldl lazy_delete_one st xs)) = max_points (index st) \<and>
   live_tags (index (foldl lazy_delete_one st xs)) =
     live_tags (index st) - delete_tag ` set xs \<and>
   tombstoned (index (foldl lazy_delete_one st xs)) =
     tombstoned (index st) \<union> (live_tags (index st) \<inter> delete_tag ` set xs)"
proof (induction xs arbitrary: st)
  case Nil
  show ?case by simp
next
  case (Cons x xs)
  show ?case
    unfolding foldl_Cons
    by (simp add: Cons.IH [of "lazy_delete_one st x"] lazy_delete_one_simps lazy_delete_simps) blast
qed

lemma delete_tag_small: "i < 2 ^ 32 - 1 \<Longrightarrow> delete_tag i = Suc i"
  by (simp add: delete_tag_def add64_def)

lemma insert_one_simps:
  "data (insert_one st j) = data st"
  "consolidate_calls (insert_one st j) = consolidate_calls st"
  "trace (insert_one st j) =
     trace st @ [Insert_point (insert_tag j)
                   (fst (insert_point (index st) (insert_tag j)))]"
  "index (insert_one st j) = snd (insert_point (index st) (insert_tag j))"
  by (simp_all add: insert_one_def Let_def)

lemma insert_tag_small: "j < 2 ^ 32 - 1 \<Longrightarrow> insert_tag (int j) = Suc j"
  by (simp add: insert_tag_def to_TagT_small)

lemma insert_point_fresh:
  assumes "card (live_tags idx) + card (tombstoned idx) < max_points idx"
    and "t \<notin> live_tags idx" and "t \<notin> tombstoned idx"
  shows "insert_point idx t = (Inserted, idx\<lparr>live_tags := insert t (live_tags idx)\<rparr>)"
  using assms by (simp add: insert_point_def)

text \<open>The tags of every insert, whatever its result.\<close>

lemma foldl_insert_one_trace:
  "inserted_tags (trace (foldl insert_one st js)) =
     inserted_tags (trace st) @ map insert_tag js \<and>
   deleted_tags (trace (foldl insert_one st js)) = deleted_tags (trace st) \<and>
   data (foldl insert_one st js) = data st \<and>
   consolidate_calls (foldl insert_one st js) = consolidate_calls st"
proof (induction js arbitrary: st)
  case Nil
  show ?case by simp
next
  case (Cons j js)
  show ?case
    unfolding foldl_Cons
    by (simp add: Cons.IH [of "insert_one st j"] insert_one_simps inserted_tags_append
        deleted_tags_append)
qed

lemma foldl_insert_one_fresh:
  assumes "finite (live_tags (index st))" and "finite (tombstoned (index st))"
    and "card (live_tags (index st)) + card (tombstoned (index st)) + length xs
           \<le> max_points (index st)"
    and "distinct xs" and "\<forall>x \<in> set xs. x < 2 ^ 32 - 1"
    and "\<forall>x \<in> set xs. Suc x \<notin> live_tags (index st) \<and> Suc x \<notin> tombstoned (index st)"
  shows "trace (foldl insert_one st (map int xs)) =
           trace st @ map (\<lambda>x. Insert_point (Suc x) Inserted) xs \<and>
         max_points (index (foldl insert_one st (map int xs))) = max_points (index st) \<and>
         live_tags (index (foldl insert_one st (map int xs))) = live_tags (index st) \<union> Suc ` set xs \<and>
         tombstoned (index (foldl insert_one st (map int xs))) = tombstoned (index st)"
  using assms
proof (induction xs arbitrary: st)
  case Nil
  show ?case by simp
next
  case (Cons x xs)
  let ?idx = "index st" and ?st1 = "insert_one st (int x)"
  have "x < 2 ^ 32 - 1" using Cons.prems(5) by simp
  then have tag: "insert_tag (int x) = Suc x" by (rule insert_tag_small)
  have room: "card (live_tags ?idx) + card (tombstoned ?idx) < max_points ?idx"
    using Cons.prems(3) by simp
  have fresh: "Suc x \<notin> live_tags ?idx" "Suc x \<notin> tombstoned ?idx"
    using Cons.prems(6) by simp_all
  note ip = insert_point_fresh [OF room fresh]
  have i1: "index ?st1 = ?idx\<lparr>live_tags := insert (Suc x) (live_tags ?idx)\<rparr>"
    and t1: "trace ?st1 = trace st @ [Insert_point (Suc x) Inserted]"
    by (simp_all add: insert_one_simps tag ip)
  have a: "finite (live_tags (index ?st1))" using Cons.prems(1) by (simp add: i1)
  have b: "finite (tombstoned (index ?st1))" using Cons.prems(2) by (simp add: i1)
  have c: "card (live_tags (index ?st1)) + card (tombstoned (index ?st1)) + length xs
             \<le> max_points (index ?st1)"
    using Cons.prems(1,3) fresh(1) by (simp add: i1)
  have d: "distinct xs" using Cons.prems(4) by simp
  have e: "\<forall>x \<in> set xs. x < 2 ^ 32 - 1" using Cons.prems(5) by simp
  have f: "\<forall>y \<in> set xs. Suc y \<notin> live_tags (index ?st1) \<and> Suc y \<notin> tombstoned (index ?st1)"
    using Cons.prems(4,6) by (auto simp: i1)
  from Cons.IH [OF a b c d e f] show ?case
    by (simp add: i1 t1)
qed

section \<open>The delete task\<close>

lemma lazy_delete_range_simps:
  "data (lazy_delete_range st a b) = data st"
  "consolidate_calls (lazy_delete_range st a b) = consolidate_calls st"
  "trace (lazy_delete_range st a b) = trace st @ map (\<lambda>i. Lazy_delete (delete_tag i)) [a ..< b]"
  "max_points (index (lazy_delete_range st a b)) = max_points (index st)"
  "live_tags (index (lazy_delete_range st a b)) = live_tags (index st) - delete_tag ` {a ..< b}"
  "tombstoned (index (lazy_delete_range st a b)) =
     tombstoned (index st) \<union> (live_tags (index st) \<inter> delete_tag ` {a ..< b})"
  using foldl_lazy_delete_one [of st "[a ..< b]"] by (simp_all add: lazy_delete_range_def)

lemma call_consolidate_simps:
  "fst (call_consolidate env st) = env (consolidate_calls st)"
  "consolidate_calls (snd (call_consolidate env st)) = Suc (consolidate_calls st)"
  "trace (snd (call_consolidate env st)) =
     trace st @ [Consolidate_deletes (env (consolidate_calls st))]"
  "index (snd (call_consolidate env st)) = consolidate_deletes (index st) (env (consolidate_calls st))"
  "data (snd (call_consolidate env st)) = data st"
  by (simp_all add: call_consolidate_def Let_def)

lemma interleave_sleep:
  "c (e 0) # concat (map (\<lambda>i. [s, c (e (Suc i))]) [0 ..< m]) =
   concat (map (\<lambda>i. [c (e i), s]) [0 ..< m]) @ [c (e m)]"
  by (induction m) simp_all

lemma delete_and_consolidate_run:
  assumes retry: "\<forall>i<n. env (consolidate_calls st + i) = LOCK_FAIL
                \<or> env (consolidate_calls st + i) = INCONSISTENT_COUNT_ERROR"
    and succ: "env (consolidate_calls st + n) = SUCCESS"
  shows "\<exists>st'. delete_and_consolidate env st a b = Some (Returned st') \<and>
           trace st' = trace (lazy_delete_range st a b) @
             concat (map (\<lambda>i. [Consolidate_deletes (env (consolidate_calls st + i)), Sleep_seconds 5])
                       [0 ..< n]) @
             [Consolidate_deletes SUCCESS] \<and>
           consolidate_calls st' = consolidate_calls st + Suc n \<and>
           index st' = (index (lazy_delete_range st a b))\<lparr>tombstoned := {}\<rparr> \<and>
           data st' = data st"
proof -
  let ?k = "consolidate_calls st"
  let ?st1 = "lazy_delete_range st a b"
  let ?st2 = "snd (call_consolidate env ?st1)"
  have dc: "delete_and_consolidate env st a b = consolidate_retry env ?st2 (env ?k)"
    by (simp add: delete_and_consolidate_def Let_def call_consolidate_simps lazy_delete_range_simps)
  show ?thesis
  proof (cases n)
    case 0
    then have s: "env ?k = SUCCESS" using succ by simp
    have "delete_and_consolidate env st a b = Some (Returned ?st2)"
      unfolding dc s by (rule consolidate_retry_SUCCESS)
    moreover have "index ?st2 = (index ?st1)\<lparr>tombstoned := {}\<rparr>"
      by (simp add: call_consolidate_simps lazy_delete_range_simps s consolidate_deletes_def)
    ultimately show ?thesis
      using 0 s by (simp add: call_consolidate_simps lazy_delete_range_simps)
  next
    case (Suc m)
    have k2: "consolidate_calls ?st2 = Suc ?k"
      by (simp add: call_consolidate_simps lazy_delete_range_simps)
    have s0: "env ?k = LOCK_FAIL \<or> env ?k = INCONSISTENT_COUNT_ERROR"
      using retry Suc by (metis add.right_neutral zero_less_Suc)
    have a: "\<forall>i<m. env (consolidate_calls ?st2 + i) = LOCK_FAIL
                \<or> env (consolidate_calls ?st2 + i) = INCONSISTENT_COUNT_ERROR"
    proof (intro allI impI)
      fix i assume "i < m"
      then have "Suc i < n" using Suc by simp
      with retry have "env (?k + Suc i) = LOCK_FAIL \<or> env (?k + Suc i) = INCONSISTENT_COUNT_ERROR"
        by blast
      then show "env (consolidate_calls ?st2 + i) = LOCK_FAIL
                \<or> env (consolidate_calls ?st2 + i) = INCONSISTENT_COUNT_ERROR"
        by (simp add: k2)
    qed
    have b: "env (consolidate_calls ?st2 + m) = SUCCESS" using succ Suc by (simp add: k2)
    from consolidate_retry_run [OF a b s0] obtain st' where
      r: "consolidate_retry env ?st2 (env ?k) = Some (Returned st')"
      and t: "trace st' = trace ?st2 @
             concat (map (\<lambda>i. [Sleep_seconds 5, Consolidate_deletes (env (consolidate_calls ?st2 + i))])
                       [0 ..< Suc m])"
      and c: "consolidate_calls st' = consolidate_calls ?st2 + Suc m"
      and x: "index st' = (index ?st2)\<lparr>tombstoned := {}\<rparr>"
      and d: "data st' = data ?st2"
      by blast
    have i2: "index ?st2 = index ?st1"
      using s0 by (auto simp: call_consolidate_simps lazy_delete_range_simps consolidate_deletes_def)
    have il: "Consolidate_deletes (env (?k + 0)) #
              concat (map (\<lambda>i. [Sleep_seconds 5, Consolidate_deletes (env (?k + Suc i))]) [0 ..< Suc m]) =
              concat (map (\<lambda>i. [Consolidate_deletes (env (?k + i)), Sleep_seconds 5]) [0 ..< Suc m]) @
              [Consolidate_deletes (env (?k + Suc m))]"
      by (rule interleave_sleep [of Consolidate_deletes "\<lambda>i. env (?k + i)" "Sleep_seconds 5" "Suc m"])
    have "trace st' = trace ?st1 @
             (Consolidate_deletes (env (?k + 0)) #
              concat (map (\<lambda>i. [Sleep_seconds 5, Consolidate_deletes (env (?k + Suc i))]) [0 ..< Suc m]))"
      unfolding t k2
      by (simp only: call_consolidate_simps lazy_delete_range_simps append_assoc append_Cons
          append_Nil add_Suc add_Suc_right add_0_right)
    then have tr: "trace st' = trace ?st1 @
             concat (map (\<lambda>i. [Consolidate_deletes (env (?k + i)), Sleep_seconds 5]) [0 ..< n]) @
             [Consolidate_deletes SUCCESS]"
      unfolding il using succ Suc by simp
    have "consolidate_calls st' = ?k + Suc n" using c k2 Suc by simp
    moreover have "index st' = (index ?st1)\<lparr>tombstoned := {}\<rparr>" using x i2 by simp
    moreover have "data st' = data st"
      using d by (simp add: call_consolidate_simps lazy_delete_range_simps)
    moreover have "delete_and_consolidate env st a b = Some (Returned st')"
      unfolding dc by (rule r)
    ultimately show ?thesis using tr by (intro exI [of _ st'] conjI)
  qed
qed

section \<open>One pass of the loop\<close>

lemma insert_next_batch_conv:
  assumes "a < 2 ^ 63" and "b < 2 ^ 63"
  shows "insert_next_batch st a b = foldl insert_one st (map int [a ..< b])"
  unfolding insert_next_batch_def to_int64_small [OF assms(1)] to_int64_small [OF assms(2)]
    upto_int_conv ..

lemma map_insert_tag_small:
  assumes "b < 2 ^ 32"
  shows "map insert_tag (map int [a ..< b]) = map Suc [a ..< b]"
proof -
  have "insert_tag (int x) = Suc x" if "x \<in> set [a ..< b]" for x
  proof -
    from that assms have "x < 2 ^ 32 - 1" by simp
    then show ?thesis by (rule insert_tag_small)
  qed
  then show ?thesis by (simp only: map_map comp_def cong: map_cong)
qed

lemma map_delete_tag_small:
  assumes "b < 2 ^ 32"
  shows "map delete_tag [a ..< b] = map Suc [a ..< b]"
proof -
  have "delete_tag x = Suc x" if "x \<in> set [a ..< b]" for x
  proof -
    from that assms have "x < 2 ^ 32 - 1" by simp
    then show ?thesis by (rule delete_tag_small)
  qed
  then show ?thesis by (simp only: cong: map_cong)
qed

lemma map_Suc_upt': "map Suc [a ..< b] = [Suc a ..< Suc b]"
  by (rule map_Suc_upt)

lemma insert_next_batch_tags:
  assumes "b < 2 ^ 32" and "a \<le> b"
  shows "inserted_tags (trace (insert_next_batch st a b)) =
           inserted_tags (trace st) @ [Suc a ..< Suc b]"
    and "deleted_tags (trace (insert_next_batch st a b)) = deleted_tags (trace st)"
    and "consolidate_calls (insert_next_batch st a b) = consolidate_calls st"
    and "data (insert_next_batch st a b) = data st"
proof -
  have b63: "b < 2 ^ 63" using assms by simp
  show "inserted_tags (trace (insert_next_batch st a b)) =
           inserted_tags (trace st) @ [Suc a ..< Suc b]"
  proof (cases "a < b")
    case True
    then have a63: "a < 2 ^ 63" using b63 by simp
    have "inserted_tags (trace (foldl insert_one st (map int [a ..< b]))) =
            inserted_tags (trace st) @ map insert_tag (map int [a ..< b])"
      using foldl_insert_one_trace [of st "map int [a ..< b]"] by (rule conjunct1)
    then show ?thesis
      unfolding insert_next_batch_conv [OF a63 b63] map_insert_tag_small [OF assms(1)] map_Suc_upt' .
  next
    case False
    then have "a = b" using assms(2) by simp
    then have "to_int64 b - 1 < to_int64 a" by simp
    then have "insert_next_batch st a b = st" by (simp add: insert_next_batch_def)
    with False show ?thesis by simp
  qed
  show "deleted_tags (trace (insert_next_batch st a b)) = deleted_tags (trace st)"
    unfolding insert_next_batch_def using foldl_insert_one_trace by blast
  show "consolidate_calls (insert_next_batch st a b) = consolidate_calls st"
    unfolding insert_next_batch_def using foldl_insert_one_trace by blast
  show "data (insert_next_batch st a b) = data st"
    unfolding insert_next_batch_def using foldl_insert_one_trace by blast
qed

lemma insert_task_frame:
  "deleted_tags (trace (insert_task f sz st a b)) = deleted_tags (trace st)"
  "consolidate_calls (insert_task f sz st a b) = consolidate_calls st"
proof -
  obtain e buf' where l: "load_aligned_bin_part f sz (data st) a (sub64 b a) = (e, buf')"
    by (cases "load_aligned_bin_part f sz (data st) a (sub64 b a)")
  have "deleted_tags (trace (insert_task f sz st a b)) = deleted_tags (trace st) \<and>
        consolidate_calls (insert_task f sz st a b) = consolidate_calls st"
  proof (cases e)
    case None
    then show ?thesis
      unfolding insert_task_def l insert_next_batch_def
      using foldl_insert_one_trace [of "st\<lparr>data := buf'\<rparr>"] by simp
  next
    case (Some err)
    then show ?thesis unfolding insert_task_def l by simp
  qed
  then show "deleted_tags (trace (insert_task f sz st a b)) = deleted_tags (trace st)"
    and "consolidate_calls (insert_task f sz st a b) = consolidate_calls st" by simp_all
qed

text \<open>The body of the loop, when it starts a delete task.\<close>

lemma loop_body_delete:
  assumes "\<not> has_labels" and "W + C \<le> start" and "start < 2 ^ 32"
  shows "loop_body env f sz has_labels N W C start st =
           delete_and_consolidate env (insert_task f sz st start (min (add64 start C) N))
             (start - W - C) (start - W)"
proof -
  have wc: "add64 W C = W + C" using assms(2,3) by (simp add: add64_small)
  have s64: "start < 2 ^ 64" using assms(3) by simp
  have s1: "sub64 start W = start - W" using assms(2) s64 by (simp add: sub64_small)
  have "start - W < 2 ^ 64" using s64 by simp
  then have s2: "sub64 (start - W) C = start - W - C" using assms(2) by (simp add: sub64_small)
  show ?thesis
    unfolding loop_body_def Let_def wc s1 s2 using assms(1,2) by simp
qed

lemma loop_body_trace:
  assumes "\<not> has_labels" and "W + C \<le> start" and "start < 2 ^ 32"
    and "\<forall>i<n. env (consolidate_calls st + i) = LOCK_FAIL
                \<or> env (consolidate_calls st + i) = INCONSISTENT_COUNT_ERROR"
    and "env (consolidate_calls st + n) = SUCCESS"
  shows "\<exists>st'. loop_body env f sz has_labels N W C start st = Some (Returned st') \<and>
           trace st' = trace (insert_task f sz st start (min (add64 start C) N)) @
             map Lazy_delete [start - W - C + 1 ..< start - W + 1] @
             concat (map (\<lambda>i. [Consolidate_deletes (env (consolidate_calls st + i)), Sleep_seconds 5])
                       [0 ..< n]) @
             [Consolidate_deletes SUCCESS]"
proof -
  let ?st1 = "insert_task f sz st start (min (add64 start C) N)"
  have k: "consolidate_calls ?st1 = consolidate_calls st" by (rule insert_task_frame)
  have lt: "start - W < 2 ^ 32" using assms(3) by simp
  have del: "map (\<lambda>i. Lazy_delete (delete_tag i)) [start - W - C ..< start - W] =
             map Lazy_delete [start - W - C + 1 ..< start - W + 1]"
    using map_delete_tag_small [OF lt, of "start - W - C"]
    by (simp only: map_map [symmetric, of Lazy_delete delete_tag, unfolded comp_def]
        map_Suc_upt' Suc_eq_plus1)
  from delete_and_consolidate_run [of n env ?st1 "start - W - C" "start - W"] assms(4,5)
  obtain st' where
    r: "delete_and_consolidate env ?st1 (start - W - C) (start - W) = Some (Returned st')"
    and t: "trace st' = trace (lazy_delete_range ?st1 (start - W - C) (start - W)) @
             concat (map (\<lambda>i. [Consolidate_deletes (env (consolidate_calls ?st1 + i)), Sleep_seconds 5])
                       [0 ..< n]) @
             [Consolidate_deletes SUCCESS]"
    unfolding k by blast
  have "trace st' = trace ?st1 @ map Lazy_delete [start - W - C + 1 ..< start - W + 1] @
             concat (map (\<lambda>i. [Consolidate_deletes (env (consolidate_calls st + i)), Sleep_seconds 5])
                       [0 ..< n]) @
             [Consolidate_deletes SUCCESS]"
    unfolding t lazy_delete_range_simps del k by simp
  moreover have "loop_body env f sz has_labels N W C start st = Some (Returned st')"
    unfolding loop_body_delete [OF assms(1,2,3)] by (rule r)
  ultimately show ?thesis by blast
qed

lemma image_Suc_range: "Suc ` {a ..< b} = {Suc a .. b}"
  by (simp add: image_Suc_atLeastLessThan atLeastLessThanSuc_atLeastAtMost)

lemma image_delete_tag_small:
  assumes "b < 2 ^ 32"
  shows "delete_tag ` {a ..< b} = {Suc a .. b}"
proof -
  have "delete_tag x = Suc x" if "x \<in> {a ..< b}" for x
  proof -
    from that assms have "x < 2 ^ 32 - 1" by simp
    then show ?thesis by (rule delete_tag_small)
  qed
  then have "delete_tag ` {a ..< b} = Suc ` {a ..< b}" by (rule image_cong [OF refl])
  then show ?thesis by (simp only: image_Suc_range)
qed

lemma insert_task_ok:
  assumes wf: "length f = 8 + hdr_npts f * hdr_dim f * sz"
    and small: "length f < 2 ^ 63"
    and sz: "sz = 1 \<or> sz = 4"
    and ab: "a \<le> b" and bn: "b \<le> hdr_npts f"
    and fin: "finite (live_tags (index st))" "finite (tombstoned (index st))"
    and cap: "card (live_tags (index st)) + card (tombstoned (index st)) + (b - a)
                \<le> max_points (index st)"
    and fresh: "\<forall>t. a < t \<and> t \<le> b \<longrightarrow> t \<notin> live_tags (index st) \<and> t \<notin> tombstoned (index st)"
  shows "max_points (index (insert_task f sz st a b)) = max_points (index st) \<and>
         live_tags (index (insert_task f sz st a b)) = live_tags (index st) \<union> {Suc a .. b} \<and>
         tombstoned (index (insert_task f sz st a b)) = tombstoned (index st) \<and>
         trace (insert_task f sz st a b) =
           trace st @ map (\<lambda>x. Insert_point (Suc x) Inserted) [a ..< b]"
proof -
  have n32: "hdr_npts f < 2 ^ 32" unfolding hdr_npts_def by (rule u32_at_bound)
  have b32: "b < 2 ^ 32" using bn n32 by simp
  have b63: "b < 2 ^ 63" and a63: "a < 2 ^ 63" using b32 ab by simp_all
  have cnt: "sub64 b a = b - a" using ab b32 by (simp add: sub64_small)
  have rng: "a + (b - a) \<le> hdr_npts f" using ab bn by simp
  from load_aligned_bin_part_reads [OF wf small rng sz, of "data st"] obtain buf' where
    l: "load_aligned_bin_part f sz (data st) a (b - a) = (None, buf')" by blast
  let ?st0 = "st\<lparr>data := buf'\<rparr>"
  have it: "insert_task f sz st a b = foldl insert_one ?st0 (map int [a ..< b])"
    unfolding insert_task_def cnt l by (simp add: insert_next_batch_conv [OF a63 b63])
  have 1: "finite (live_tags (index ?st0))" using fin by simp
  have 2: "finite (tombstoned (index ?st0))" using fin by simp
  have 3: "card (live_tags (index ?st0)) + card (tombstoned (index ?st0)) + length [a ..< b]
             \<le> max_points (index ?st0)" using cap by simp
  have 4: "distinct [a ..< b]" by simp
  have 5: "\<forall>x \<in> set [a ..< b]. x < 2 ^ 32 - 1" using b32 by auto
  have 6: "\<forall>x \<in> set [a ..< b]. Suc x \<notin> live_tags (index ?st0) \<and> Suc x \<notin> tombstoned (index ?st0)"
    using fresh by auto
  from foldl_insert_one_fresh [OF 1 2 3 4 5 6] show ?thesis
    unfolding it by (simp add: atLeastLessThanSuc_atLeastAtMost)
qed

lemma stream_loop_step:
  assumes "add64 start C \<le> N" and "loop_body env f sz hl N W C start st = Some (Returned st')"
  shows "stream_loop env f sz hl N W C start st = stream_loop env f sz hl N W C (add64 start C) st'"
  by (subst stream_loop.simps) (simp add: assms)

lemma stream_loop_stop:
  assumes "\<not> add64 start C \<le> N"
  shows "stream_loop env f sz hl N W C start st = Some (Returned st)"
  by (subst stream_loop.simps) (simp add: assms)

lemma stream_loop_exit:
  assumes "add64 start C \<le> N" and "loop_body env f sz hl N W C start st = Some Exited"
  shows "stream_loop env f sz hl N W C start st = Some Exited"
  by (subst stream_loop.simps) (simp add: assms)

text \<open>
  One pass of the loop keeps the window: before the pass at \<open>start\<close> the live tags are
  the last \<open>W + C\<close> up to \<open>start\<close> (all of them while there are fewer), after it the
  last \<open>W + C\<close> up to \<open>start + C\<close>.
\<close>

lemma loop_body_window:
  assumes wf: "length f = 8 + hdr_npts f * hdr_dim f * sz"
    and small: "length f < 2 ^ 63"
    and sz: "sz = 1 \<or> sz = 4"
    and nl: "\<not> has_labels"
    and env: "\<forall>k. \<exists>n. env (k + n) = SUCCESS \<and>
                (\<forall>i<n. env (k + i) = LOCK_FAIL \<or> env (k + i) = INCONSISTENT_COUNT_ERROR)"
    and N: "N \<le> hdr_npts f" and WC: "W + C \<le> N"
    and step: "start + C \<le> N" and ge: "W \<le> start" and dv: "C dvd (start - W)"
    and cap: "max_points (index st) = W + 4 * C"
    and live: "live_tags (index st) = {Suc (start - (W + C)) .. start}"
    and tomb: "tombstoned (index st) = {}"
  shows "\<exists>st'. loop_body env f sz has_labels N W C start st = Some (Returned st') \<and>
           max_points (index st') = W + 4 * C \<and>
           live_tags (index st') = {Suc (start + C - (W + C)) .. start + C} \<and>
           tombstoned (index st') = {}"
proof -
  have n32: "hdr_npts f < 2 ^ 32" unfolding hdr_npts_def by (rule u32_at_bound)
  have s32: "start + C < 2 ^ 32" using step N n32 by simp
  have e: "min (add64 start C) N = start + C" using s32 step by (simp add: add64_small)
  let ?st1 = "insert_task f sz st start (start + C)"
  have c1: "card (live_tags (index st)) + card (tombstoned (index st)) + (start + C - start)
              \<le> max_points (index st)"
    unfolding live tomb cap by simp
  have f1: "\<forall>t. start < t \<and> t \<le> start + C \<longrightarrow>
              t \<notin> live_tags (index st) \<and> t \<notin> tombstoned (index st)"
    unfolding live tomb by simp
  have "start + C \<le> hdr_npts f" using step N by simp
  from insert_task_ok [OF wf small sz _ this _ _ c1 f1]
  have i1: "max_points (index ?st1) = W + 4 * C"
    and l1: "live_tags (index ?st1) = {Suc (start - (W + C)) .. start} \<union> {Suc start .. start + C}"
    and t1: "tombstoned (index ?st1) = {}"
    by (simp_all add: live tomb cap)
  have wc: "add64 W C = W + C" using WC N n32 by (simp add: add64_small)
  show ?thesis
  proof (cases "W + C \<le> start")
    case True
    have st32: "start < 2 ^ 32" using s32 by simp
    have k: "consolidate_calls ?st1 = consolidate_calls st" by (rule insert_task_frame)
    from env obtain n where
      succ: "env (consolidate_calls ?st1 + n) = SUCCESS"
      and retry: "\<forall>i<n. env (consolidate_calls ?st1 + i) = LOCK_FAIL
                    \<or> env (consolidate_calls ?st1 + i) = INCONSISTENT_COUNT_ERROR"
      by blast
    from delete_and_consolidate_run [OF retry succ, of "start - W - C" "start - W"]
    obtain st' where
      r: "delete_and_consolidate env ?st1 (start - W - C) (start - W) = Some (Returned st')"
      and x: "index st' = (index (lazy_delete_range ?st1 (start - W - C) (start - W)))\<lparr>tombstoned := {}\<rparr>"
      by blast
    have d32: "start - W < 2 ^ 32" using st32 by simp
    have "live_tags (index st') =
            ({Suc (start - (W + C)) .. start} \<union> {Suc start .. start + C})
            - {Suc (start - W - C) .. start - W}"
      unfolding x by (simp add: lazy_delete_range_simps l1 image_delete_tag_small [OF d32])
    also have "\<dots> = {Suc (start + C - (W + C)) .. start + C}"
      using True by auto
    finally have lv: "live_tags (index st') = {Suc (start + C - (W + C)) .. start + C}" .
    have "max_points (index st') = W + 4 * C"
      unfolding x by (simp add: lazy_delete_range_simps i1)
    moreover have "tombstoned (index st') = {}" unfolding x by simp
    moreover have "loop_body env f sz has_labels N W C start st = Some (Returned st')"
      unfolding loop_body_delete [OF nl True st32] e by (rule r)
    ultimately show ?thesis using lv by blast
  next
    case False
    have "start - W < C" using False ge by simp
    with dv have "start - W = 0"
      by (metis dvd_imp_le not_le zero_less_iff_neq_zero)
    with ge have sw: "start = W" by simp
    have lb: "loop_body env f sz has_labels N W C start st = Some (Returned ?st1)"
      unfolding loop_body_def Let_def e wc using nl False by simp
    have "{Suc (start - (W + C)) .. start} \<union> {Suc start .. start + C}
            = {Suc (start + C - (W + C)) .. start + C}"
      unfolding sw by auto
    with l1 have "live_tags (index ?st1) = {Suc (start + C - (W + C)) .. start + C}"
      by simp
    with lb i1 t1 show ?thesis by blast
  qed
qed

section \<open>The whole run\<close>

lemma stream_loop_window:
  assumes wf: "length f = 8 + hdr_npts f * hdr_dim f * sz"
    and small: "length f < 2 ^ 63"
    and sz: "sz = 1 \<or> sz = 4"
    and nl: "\<not> has_labels"
    and env: "\<forall>k. \<exists>n. env (k + n) = SUCCESS \<and>
                (\<forall>i<n. env (k + i) = LOCK_FAIL \<or> env (k + i) = INCONSISTENT_COUNT_ERROR)"
    and N: "N \<le> hdr_npts f" and WC: "W + C \<le> N" and C: "0 < C"
    and ge: "W \<le> start" and dv: "C dvd (start - W)" and sN: "start \<le> N"
    and cap: "max_points (index st) = W + 4 * C"
    and live: "live_tags (index st) = {Suc (start - (W + C)) .. start}"
    and tomb: "tombstoned (index st) = {}"
  shows "\<exists>st'. stream_loop env f sz has_labels N W C start st = Some (Returned st') \<and>
           max_points (index st') = W + 4 * C \<and>
           live_tags (index st') =
             {Suc (start + (N - start) div C * C - (W + C)) .. start + (N - start) div C * C} \<and>
           tombstoned (index st') = {}"
  using ge dv sN cap live tomb
proof (induction "N - start" arbitrary: start st rule: less_induct)
  case less
  have n32: "hdr_npts f < 2 ^ 32" unfolding hdr_npts_def by (rule u32_at_bound)
  have "C \<le> N" using WC by simp
  then have a: "add64 start C = start + C" using less.prems(3) N n32 by (simp add: add64_small)
  show ?case
  proof (cases "start + C \<le> N")
    case True
    from loop_body_window [OF wf small sz nl env N WC True less.prems(1,2,4,5,6)]
    obtain st1 where
      lb: "loop_body env f sz has_labels N W C start st = Some (Returned st1)"
      and c1: "max_points (index st1) = W + 4 * C"
      and l1: "live_tags (index st1) = {Suc (start + C - (W + C)) .. start + C}"
      and t1: "tombstoned (index st1) = {}"
      by blast
    have step: "stream_loop env f sz has_labels N W C start st =
                stream_loop env f sz has_labels N W C (start + C) st1"
      using stream_loop_step [of start C N env f sz has_labels W st st1] True lb
      unfolding a by simp
    have m: "N - (start + C) < N - start" using True C by simp
    have g1: "W \<le> start + C" using less.prems(1) by simp
    have "start + C - W = (start - W) + C" using less.prems(1) by simp
    then have d1: "C dvd (start + C - W)" using less.prems(2) by simp
    have "C \<le> N - start" using True by simp
    then have "(N - start) div C = Suc ((N - start - C) div C)" using C by (simp add: le_div_geq)
    then have sf: "start + (N - start) div C * C = start + C + (N - (start + C)) div C * C"
      by simp
    from less.hyps [OF m g1 d1 True c1 l1 t1] show ?thesis
      unfolding step sf .
  next
    case False
    then have "\<not> add64 start C \<le> N" unfolding a .
    then have stop: "stream_loop env f sz has_labels N W C start st = Some (Returned st)"
      by (rule stream_loop_stop)
    have "N - start < C" using False C by linarith
    then have "(N - start) div C = 0" by (rule div_less)
    then have sf: "start + (N - start) div C * C = start" by simp
    show ?thesis unfolding stop sf using less.prems(4,5,6) by simp
  qed
qed

lemma int32_to_size_t_ge: "v \<le> int32_to_size_t v"
  by (simp add: int32_to_size_t_def)

lemma driver_init_ok:
  assumes N: "N = (if N0 = 0 then fst (get_bin_metadata f) else N0)"
    and np: "N \<le> fst (get_bin_metadata f)" and WC: "W + C \<le> N" and th: "N div 1000 \<le> C"
    and rep: "W + 4 * C < 2 ^ 64"
  shows "driver_init f mem N0 W C =
           Inr (N, \<lparr>index = index_new (W + 4 * C), data = mem, trace = [], consolidate_calls = 0\<rparr>)"
proof -
  have wc: "add64 W C = W + C" using rep by (simp add: add64_small)
  have "4 * C < 2 ^ 64" using rep by simp
  then have c4: "add64 W (mul64 4 C) = W + 4 * C" using rep by (simp add: add64_small mul64_small)
  show ?thesis
    unfolding driver_init_def Let_def N [symmetric] wc c4 using np WC th by simp
qed

lemma build_incremental_index_run:
  assumes wf: "length f = 8 + hdr_npts f * hdr_dim f * sz"
    and small: "length f < 2 ^ 63"
    and sz: "sz = 1 \<or> sz = 4"
    and nl: "\<not> has_labels"
    and env: "\<forall>k. \<exists>n. env (k + n) = SUCCESS \<and>
                (\<forall>i<n. env (k + i) = LOCK_FAIL \<or> env (k + i) = INCONSISTENT_COUNT_ERROR)"
    and N: "N = (if N0 = 0 then fst (get_bin_metadata f) else N0)"
    and np: "N \<le> hdr_npts f" and WC: "W + C \<le> N" and th: "N div 1000 \<le> C" and C: "0 < C"
  shows "\<exists>st. build_incremental_index env f sz mem N0 W C has_labels = Some (Inr (Returned st)) \<and>
           max_points (index st) = W + 4 * C \<and>
           live_tags (index st) = {((N - W) div C - 1) * C + 1 .. W + (N - W) div C * C} \<and>
           tombstoned (index st) = {}"
proof -
  have n32: "hdr_npts f < 2 ^ 32" unfolding hdr_npts_def by (rule u32_at_bound)
  have np': "N \<le> fst (get_bin_metadata f)"
    using np int32_to_size_t_ge [of "hdr_npts f"] by (simp add: get_bin_metadata_def)
  have "W + 4 * C \<le> 4 * N" using WC by simp
  then have rep: "W + 4 * C < 2 ^ 64" using np n32 by simp
  let ?st0 = "\<lparr>index = index_new (W + 4 * C), data = mem, trace = [], consolidate_calls = 0\<rparr>"
  note init = driver_init_ok [OF N np' WC th rep, of mem]
  have bi: "build_incremental_index env f sz mem N0 W C has_labels =
              map_option Inr (stream_loop env f sz has_labels N W C W (insert_task f sz ?st0 0 W))"
    unfolding build_incremental_index_def init by simp
  let ?st1 = "insert_task f sz ?st0 0 W"
  have WN: "W \<le> hdr_npts f" using WC np by simp
  have "max_points (index ?st1) = max_points (index ?st0) \<and>
        live_tags (index ?st1) = live_tags (index ?st0) \<union> {Suc 0 .. W} \<and>
        tombstoned (index ?st1) = tombstoned (index ?st0) \<and>
        trace ?st1 = trace ?st0 @ map (\<lambda>x. Insert_point (Suc x) Inserted) [0 ..< W]"
    by (rule insert_task_ok [OF wf small sz _ WN]) (simp_all add: index_new_def)
  then have c1: "max_points (index ?st1) = W + 4 * C"
    and l1: "live_tags (index ?st1) = {Suc (W - (W + C)) .. W}"
    and t1: "tombstoned (index ?st1) = {}"
    by (simp_all add: index_new_def)
  have WleN: "W \<le> N" using WC by simp
  from stream_loop_window [OF wf small sz nl env np WC C le_refl _ WleN c1 l1 t1]
  obtain st where
    r: "stream_loop env f sz has_labels N W C W ?st1 = Some (Returned st)"
    and c: "max_points (index st) = W + 4 * C"
    and l: "live_tags (index st) = {Suc (W + (N - W) div C * C - (W + C)) .. W + (N - W) div C * C}"
    and t: "tombstoned (index st) = {}"
    by auto
  have "C \<le> N - W" using WC by simp
  then have "1 \<le> (N - W) div C" using C by (simp add: le_div_geq)
  then obtain m where m: "(N - W) div C = Suc m" by (cases "(N - W) div C") simp_all
  have "Suc (W + (N - W) div C * C - (W + C)) = ((N - W) div C - 1) * C + 1"
    unfolding m by simp
  with l have l': "live_tags (index st) = {((N - W) div C - 1) * C + 1 .. W + (N - W) div C * C}"
    by simp
  have "build_incremental_index env f sz mem N0 W C has_labels = Some (Inr (Returned st))"
    unfolding bi r by simp
  with c l' t show ?thesis by blast
qed

text \<open>
  With \<open>consolidate_interval = 0\<close>, which the checks let pass for fewer than 1000
  points, \<open>start\<close> never moves and the loop does not return: it runs for ever unless a
  delete task ends the process.
\<close>

lemma stream_loop_zero_interval_aux:
  assumes "stream_loop env f sz hl N W C start st = Some r"
  shows "C = 0 \<and> start \<le> N \<and> N < 2 ^ 64 \<longrightarrow> r = Exited"
  by (rule stream_loop.raw_induct
        [where P = "\<lambda>env f sz hl N W C start st r.
                      C = 0 \<and> start \<le> N \<and> N < 2 ^ 64 \<longrightarrow> r = Exited",
         OF _ assms])
     (auto simp: add64_def bind_eq_Some_conv split: if_splits run.splits, metis run.exhaust)

lemma stream_loop_zero_interval:
  assumes "start \<le> N" and "N < 2 ^ 64"
  shows "stream_loop env f sz hl N W 0 start st \<noteq> Some (Returned st')"
  using stream_loop_zero_interval_aux [of env f sz hl N W 0 start st "Returned st'"] assms
  by auto

section \<open>Consolidation statuses\<close>







section \<open>The live tags after the run\<close>

lemma env_success:
  "\<forall>k::nat. \<exists>n::nat. (\<lambda>k::nat. SUCCESS) (k + n) = SUCCESS \<and>
     (\<forall>i<n. (\<lambda>k::nat. SUCCESS) (k + i) = LOCK_FAIL
          \<or> (\<lambda>k::nat. SUCCESS) (k + i) = INCONSISTENT_COUNT_ERROR)"
  by (rule allI, rule exI [of _ "0::nat"], simp)

text \<open>
  Claim C1, as the code has it. Without labels, on a well-formed file, with the
  preconditions of the driver, a positive interval \<open>C\<close> that divides \<open>N - W\<close> and
  consolidations that succeed in the end, \<open>build_incremental_index\<close> finishes its loop
  with the live tags \<open>N - W - C + 1, ..., N\<close>: the delete task of a pass lags one
  interval behind its insert task, so that \<open>W + C\<close> tags are live, not \<open>W\<close>.
\<close>

theorem build_incremental_index_live_tags:
  assumes "length f = 8 + hdr_npts f * hdr_dim f * sz"
    and "length f < 2 ^ 63"
    and "sz = 1 \<or> sz = 4"
    and "\<not> has_labels"
    and "\<forall>k. \<exists>n. env (k + n) = SUCCESS \<and>
                (\<forall>i<n. env (k + i) = LOCK_FAIL \<or> env (k + i) = INCONSISTENT_COUNT_ERROR)"
    and "N = (if N0 = 0 then fst (get_bin_metadata f) else N0)"
    and "N \<le> hdr_npts f" and "W + C \<le> N" and "N div 1000 \<le> C" and "0 < C"
    and "C dvd (N - W)"
  shows "\<exists>st. build_incremental_index env f sz mem N0 W C has_labels = Some (Inr (Returned st)) \<and>
           live_tags (index st) = {N - W - C + 1 .. N} \<and>
           tombstoned (index st) = {} \<and>
           card (live_tags (index st)) = W + C"
proof -
  from build_incremental_index_run [OF assms(1-10), of mem] obtain st where
    r: "build_incremental_index env f sz mem N0 W C has_labels = Some (Inr (Returned st))"
    and l: "live_tags (index st) = {((N - W) div C - 1) * C + 1 .. W + (N - W) div C * C}"
    and t: "tombstoned (index st) = {}"
    by blast
  have m: "(N - W) div C * C = N - W" using assms(11) by (rule dvd_div_mult_self)
  have "((N - W) div C - 1) * C = (N - W) div C * C - C" by (simp add: diff_mult_distrib)
  then have lo: "((N - W) div C - 1) * C + 1 = N - W - C + 1" unfolding m by simp
  have hi: "W + (N - W) div C * C = N" unfolding m using assms(8) by simp
  have l': "live_tags (index st) = {N - W - C + 1 .. N}" using l unfolding lo hi .
  have "card {N - W - C + 1 .. N} = W + C" using assms(8) by simp
  with r l' t show ?thesis by (intro exI [of _ st]) simp
qed

lemma file_1000:
  "length ([232, 3, 0, 0, 4, 0, 0, 0] @ replicate 4000 (0 :: byte)) = 4008"
  "hdr_npts ([232, 3, 0, 0, 4, 0, 0, 0] @ replicate 4000 0) = 1000"
  "hdr_dim ([232, 3, 0, 0, 4, 0, 0, 0] @ replicate 4000 0) = 4"
  by (simp_all add: hdr_simps)

text \<open>
  The scenario of the spec: 1000 points of dimension 4 and type \<open>int8_t\<close>, a window
  of 200, an interval of 50. The run ends with the 250 tags 751 to 1000 live, not with
  the 200 tags 801 to 1000.
\<close>

theorem build_incremental_index_live_tags_counterexample:
  "\<exists>st. build_incremental_index (\<lambda>k. SUCCESS) ([232, 3, 0, 0, 4, 0, 0, 0] @ replicate 4000 0) 1
           (\<lambda>k. 0) 1000 200 50 False = Some (Inr (Returned st)) \<and>
        live_tags (index st) = {751 .. 1000} \<and>
        live_tags (index st) \<noteq> {1000 - 200 + 1 .. 1000} \<and>
        card (live_tags (index st)) = 250"
proof -
  let ?f = "[232, 3, 0, 0, 4, 0, 0, 0] @ replicate 4000 (0 :: byte)"
  have 1: "length ?f = 8 + hdr_npts ?f * hdr_dim ?f * 1" unfolding file_1000 by simp
  have 2: "length ?f < 2 ^ 63" unfolding file_1000 by simp
  have 3: "(1::nat) = 1 \<or> (1::nat) = 4" by simp
  have 4: "\<not> False" by simp
  have 6: "(1000::nat) = (if (1000::nat) = 0 then fst (get_bin_metadata ?f) else 1000)" by simp
  have 7: "1000 \<le> hdr_npts ?f" unfolding file_1000 by simp
  have 8: "(200::nat) + 50 \<le> 1000" by simp
  have 9: "(1000::nat) div 1000 \<le> 50" by simp
  have 10: "(0::nat) < 50" by simp
  from build_incremental_index_run [OF 1 2 3 4 env_success 6 7 8 9 10, of "\<lambda>k. 0"]
  obtain st where
    r: "build_incremental_index (\<lambda>k. SUCCESS) ?f 1 (\<lambda>k. 0) 1000 200 50 False = Some (Inr (Returned st))"
    and l: "live_tags (index st) = {((1000 - 200) div 50 - 1) * 50 + 1 .. 200 + (1000 - 200) div 50 * 50}"
    by blast
  have l': "live_tags (index st) = {751 .. 1000}" unfolding l by simp
  have "(751::nat) \<in> {751 .. 1000}" and "(751::nat) \<notin> {1000 - 200 + 1 .. 1000}" by simp_all
  then have ne: "{751 .. 1000} \<noteq> {1000 - 200 + 1 .. (1000::nat)}" by metis
  have "card {751 .. (1000::nat)} = 250" by simp
  with r l' ne show ?thesis by (intro exI [of _ st]) simp
qed

theorem build_incremental_index_live_tags_witness:
  "\<exists>st. build_incremental_index (\<lambda>k. SUCCESS) [3, 0, 0, 0, 1, 0, 0, 0, 7, 8, 9] 1
           (\<lambda>k. 0) 0 1 1 False = Some (Inr (Returned st)) \<and>
        live_tags (index st) = {2 .. 3} \<and> tombstoned (index st) = {} \<and>
        card (live_tags (index st)) = 2"
proof -
  let ?f = "[3, 0, 0, 0, 1, 0, 0, 0, 7, 8, 9 :: byte]"
  have n: "hdr_npts ?f = 3" and d: "hdr_dim ?f = 1" by (simp_all add: hdr_simps)
  have 1: "length ?f = 8 + hdr_npts ?f * hdr_dim ?f * 1" unfolding n d by simp
  have 2: "length ?f < 2 ^ 63" by simp
  have 3: "(1::nat) = 1 \<or> (1::nat) = 4" by simp
  have 4: "\<not> False" by simp
  have 6: "(3::nat) = (if (0::nat) = 0 then fst (get_bin_metadata ?f) else 0)"
    by (simp add: get_bin_metadata_def n int32_to_size_t_def)
  have 7: "3 \<le> hdr_npts ?f" unfolding n by simp
  have 8: "(1::nat) + 1 \<le> 3" by simp
  have 9: "(3::nat) div 1000 \<le> 1" by simp
  have 10: "(0::nat) < 1" by simp
  have 11: "(1::nat) dvd (3 - 1)" by simp
  from build_incremental_index_live_tags [OF 1 2 3 4 env_success 6 7 8 9 10 11, of "\<lambda>k. 0"]
  show ?thesis by (simp add: numeral_2_eq_2 numeral_3_eq_3)
qed

section \<open>The delete task of a pass\<close>

text \<open>
  Claim C2, as the code has it. In a pass of the loop at \<open>start \<ge> W + C\<close> without
  labels, the delete task lazily deletes the points of index
  \<open>start - W - C, ..., start - W - 1\<close>, that is the tags
  \<open>start - W - C + 1, ..., start - W\<close>, in this order, and then calls
  \<open>consolidate_deletes\<close> until it succeeds. A batch of points \<open>a, ..., b - 1\<close> is
  inserted under the tags \<open>a + 1, ..., b\<close>: a tag is one more than the index.
\<close>

theorem loop_body_delete_task:
  assumes "\<not> has_labels" and "W + C \<le> start" and "start < 2 ^ 32"
    and "\<forall>i<n. env (consolidate_calls st + i) = LOCK_FAIL
                \<or> env (consolidate_calls st + i) = INCONSISTENT_COUNT_ERROR"
    and "env (consolidate_calls st + n) = SUCCESS"
  shows "(\<exists>st'. loop_body env f sz has_labels N W C start st = Some (Returned st') \<and>
           trace st' = trace (insert_task f sz st start (min (add64 start C) N)) @
             map Lazy_delete [start - W - C + 1 ..< start - W + 1] @
             concat (map (\<lambda>i. [Consolidate_deletes (env (consolidate_calls st + i)), Sleep_seconds 5])
                       [0 ..< n]) @
             [Consolidate_deletes SUCCESS]) \<and>
         (\<forall>a b st0. a \<le> b \<and> b < 2 ^ 32 \<longrightarrow>
            inserted_tags (trace (insert_next_batch st0 a b)) =
              inserted_tags (trace st0) @ [a + 1 ..< b + 1])"
proof (rule conjI)
  show "\<exists>st'. loop_body env f sz has_labels N W C start st = Some (Returned st') \<and>
           trace st' = trace (insert_task f sz st start (min (add64 start C) N)) @
             map Lazy_delete [start - W - C + 1 ..< start - W + 1] @
             concat (map (\<lambda>i. [Consolidate_deletes (env (consolidate_calls st + i)), Sleep_seconds 5])
                       [0 ..< n]) @
             [Consolidate_deletes SUCCESS]"
    using assms by (rule loop_body_trace)
  show "\<forall>a b st0. a \<le> b \<and> b < 2 ^ 32 \<longrightarrow>
            inserted_tags (trace (insert_next_batch st0 a b)) =
              inserted_tags (trace st0) @ [a + 1 ..< b + 1]"
    using insert_next_batch_tags(1) by simp
qed

lemma file_3:
  "length [3, 0, 0, 0, 1, 0, 0, 0, 7, 8, 9 :: byte] = 11"
  "hdr_npts [3, 0, 0, 0, 1, 0, 0, 0, 7, 8, 9] = 3"
  "hdr_dim [3, 0, 0, 0, 1, 0, 0, 0, 7, 8, 9] = 1"
  by (simp_all add: hdr_simps)

theorem loop_body_delete_task_witness:
  "(\<exists>st'. loop_body (\<lambda>k. SUCCESS) [3, 0, 0, 0, 1, 0, 0, 0, 7, 8, 9] 1 False 3 1 1 2
            \<lparr>index = \<lparr>max_points = 5, live_tags = {1 .. 2}, tombstoned = {}\<rparr>,
             data = (\<lambda>k. 0), trace = [], consolidate_calls = 0\<rparr> = Some (Returned st') \<and>
          trace st' =
            trace (insert_task [3, 0, 0, 0, 1, 0, 0, 0, 7, 8, 9] 1
                     \<lparr>index = \<lparr>max_points = 5, live_tags = {1 .. 2}, tombstoned = {}\<rparr>,
                      data = (\<lambda>k. 0), trace = [], consolidate_calls = 0\<rparr> 2 3) @
            [Lazy_delete 1, Consolidate_deletes SUCCESS]) \<and>
   inserted_tags (trace (insert_next_batch
       \<lparr>index = \<lparr>max_points = 5, live_tags = {1 .. 2}, tombstoned = {}\<rparr>,
        data = (\<lambda>k. 0), trace = [], consolidate_calls = 0\<rparr> 2 3)) = [3]"
proof -
  let ?env = "\<lambda>k::nat. SUCCESS"
  let ?st = "\<lparr>index = \<lparr>max_points = 5, live_tags = {1 .. 2 :: nat}, tombstoned = {}\<rparr>,
             data = (\<lambda>k. 0 :: byte), trace = [], consolidate_calls = 0\<rparr>"
  let ?f = "[3, 0, 0, 0, 1, 0, 0, 0, 7, 8, 9 :: byte]"
  have 1: "\<not> False" by simp
  have 2: "(1::nat) + 1 \<le> 2" by simp
  have 3: "(2::nat) < 2 ^ 32" by simp
  have 4: "\<forall>i<0. ?env (consolidate_calls ?st + i) = LOCK_FAIL
                \<or> ?env (consolidate_calls ?st + i) = INCONSISTENT_COUNT_ERROR" by simp
  have 5: "?env (consolidate_calls ?st + 0) = SUCCESS" by simp
  have e: "min (add64 2 1) 3 = (3::nat)" by (simp add: add64_def)
  have u: "[Suc 0 ..< 2] = [1]" by (simp add: upt_rec numeral_2_eq_2)
  have v: "[3 ..< 4] = [3::nat]" by (simp add: upt_rec)
  note t = loop_body_delete_task [of False 1 1 2 0 ?env ?st ?f 1 3, OF 1 2 3 4 5]
  from t have "\<exists>st'. loop_body ?env ?f 1 False 3 1 1 2 ?st = Some (Returned st') \<and>
          trace st' = trace (insert_task ?f 1 ?st 2 3) @ [Lazy_delete 1, Consolidate_deletes SUCCESS]"
    unfolding e by (simp add: u)
  moreover from t have "inserted_tags (trace (insert_next_batch ?st 2 3)) = [3]"
    by (simp add: v)
  ultimately show ?thesis by (rule conjI)
qed

text \<open>
  The claim as the spec has it fails: with a window of 1 and an interval of 1, the pass
  at \<open>start = 2\<close> deletes tag 1, not the tags of \<open>[start - W - C, start - W) = [0, 1)\<close>,
  and leaves the tags 2 and 3 live.
\<close>

theorem loop_body_delete_task_counterexample:
  "\<exists>st'. loop_body (\<lambda>k. SUCCESS) [3, 0, 0, 0, 1, 0, 0, 0, 7, 8, 9] 1 False 3 1 1 2
            \<lparr>index = \<lparr>max_points = 5, live_tags = {1 .. 2}, tombstoned = {}\<rparr>,
             data = (\<lambda>k. 0), trace = [], consolidate_calls = 0\<rparr> = Some (Returned st') \<and>
          deleted_tags (trace st') = [1] \<and>
          deleted_tags (trace st') \<noteq> [2 - 1 - 1 ..< 2 - 1] \<and>
          live_tags (index st') = {2 .. 3}"
proof -
  let ?env = "\<lambda>k::nat. SUCCESS"
  let ?st = "\<lparr>index = \<lparr>max_points = 5, live_tags = {1 .. 2 :: nat}, tombstoned = {}\<rparr>,
             data = (\<lambda>k. 0 :: byte), trace = [], consolidate_calls = 0\<rparr>"
  let ?f = "[3, 0, 0, 0, 1, 0, 0, 0, 7, 8, 9 :: byte]"
  have 1: "\<not> False" by simp
  have 2: "(1::nat) + 1 \<le> 2" by simp
  have 3: "(2::nat) < 2 ^ 32" by simp
  have 4: "\<forall>i<0. ?env (consolidate_calls ?st + i) = LOCK_FAIL
                \<or> ?env (consolidate_calls ?st + i) = INCONSISTENT_COUNT_ERROR" by simp
  have 5: "?env (consolidate_calls ?st + 0) = SUCCESS" by simp
  have e: "min (add64 2 1) 3 = (3::nat)" by (simp add: add64_def)
  have u: "[Suc 0 ..< 2] = [1]" by (simp add: upt_rec numeral_2_eq_2)
  from loop_body_trace [of False 1 1 2 0 ?env ?st ?f 1 3, OF 1 2 3 4 5] obtain st' where
    r: "loop_body ?env ?f 1 False 3 1 1 2 ?st = Some (Returned st')"
    and t: "trace st' = trace (insert_task ?f 1 ?st 2 3) @ [Lazy_delete 1, Consolidate_deletes SUCCESS]"
    unfolding e by (auto simp: u)
  have d: "deleted_tags (trace st') = [1]"
    unfolding t by (simp add: deleted_tags_append insert_task_frame)
  have w1: "length ?f = 8 + hdr_npts ?f * hdr_dim ?f * 1" unfolding file_3 by simp
  have w2: "length ?f < 2 ^ 63" by simp
  have w3: "(1::nat) = 1 \<or> (1::nat) = 4" by simp
  have w6: "3 \<le> hdr_npts ?f" unfolding file_3 by simp
  have w7: "(1::nat) + 1 \<le> 3" by simp
  have w8: "(2::nat) + 1 \<le> 3" by simp
  have w9: "(1::nat) \<le> 2" by simp
  have w10: "(1::nat) dvd (2 - 1)" by simp
  have w11: "max_points (index ?st) = 1 + 4 * 1" by simp
  have w12: "live_tags (index ?st) = {Suc (2 - (1 + 1)) .. 2}" by simp
  have w13: "tombstoned (index ?st) = {}" by simp
  from loop_body_window [OF w1 w2 w3 1 env_success w6 w7 w8 w9 w10 w11 w12 w13] r
  have l: "live_tags (index st') = {2 .. 3}" by (auto simp: numeral_2_eq_2 numeral_3_eq_3)
  have "deleted_tags (trace st') \<noteq> [2 - 1 - 1 ..< 2 - 1]" unfolding d by simp
  with r d l show ?thesis by blast
qed

section \<open>Preconditions and capacity\<close>






end
